theory Spec2Isabelle
  imports Main "HOL-Library.Sublist"
begin

section \<open>The editing surface: pages, block elements and inline nodes\<close>

text \<open>
  The editor of \<^verbatim>\<open>src/components/Editor/index.tsx\<close> keeps the document in the DOM:
  \<^verbatim>\<open>pageRefsRef.current\<close> is the list of pages, and the children of a page's
  \<^verbatim>\<open>contentElement\<close> are its block elements, in order. A block element is modelled by
  the attributes the code reads: \<^verbatim>\<open>data-block-id\<close> (absent is \<open>None\<close>),
  \<^verbatim>\<open>data-page-break\<close>, the block type its class name stands for, and its child nodes.
  Inline content is a forest of text nodes and \<^verbatim>\<open>span[data-format]\<close> elements; the
  \<^verbatim>\<open>data-format\<close> attribute is kept as the list of its format tokens, in the order
  they are written.
\<close>

datatype FormatType = Bold | Italic | Underline | Strikethrough

datatype BlockType = Paragraph | Heading | ListItem

datatype node = Text string | Span "FormatType list" "node list"

record element =
  blockId :: "string option"
  pageBreak :: bool
  kind :: BlockType
  childNodes :: "node list"

type_synonym page = "element list"

text \<open>
  The Height Oracle: \<^verbatim>\<open>rect.height + marginTop + marginBottom\<close> of a block element, as
  the browser's layout reports it. It is a parameter \<open>ht\<close> of every flow function;
  heights are non-negative and counted in whole pixels. The editor is taken as
  initialised (\<^verbatim>\<open>isInitializedRef.current\<close> holds), and the \<^verbatim>\<open>blockRefs\<close> maps,
  which no flow function reads, are left out.
\<close>

type_synonym heightOracle = "element \<Rightarrow> nat"

definition getPageContentMaxHeight :: nat where
  "getPageContentMaxHeight = 931"

text \<open>\<^verbatim>\<open>if (!blockId) continue\<close>: a missing or empty id is falsy.\<close>

definition hasBlockId :: "element \<Rightarrow> bool" where
  "hasBlockId e = (case blockId e of None \<Rightarrow> False | Some s \<Rightarrow> s \<noteq> [])"

definition nonPageBreakBlocks :: "page \<Rightarrow> element list" where
  "nonPageBreakBlocks blocks = filter (\<lambda>el. \<not> pageBreak el) blocks"

text \<open>The quantity that the budget invariant of the specification bounds.\<close>

definition contentHeight :: "heightOracle \<Rightarrow> page \<Rightarrow> nat" where
  "contentHeight ht blocks = sum_list (map ht (nonPageBreakBlocks blocks))"

text \<open>
  \<^verbatim>\<open>calculatePageBlocksHeight\<close>: the \<^verbatim>\<open>reduce\<close> over the children; a page break
  that is not the last child (\<^verbatim>\<open>index < blockElements.length - 1\<close>) adds the budget
  plus 1000, one at the end adds nothing.
\<close>

fun calculatePageBlocksHeight :: "heightOracle \<Rightarrow> page \<Rightarrow> nat" where
  "calculatePageBlocksHeight ht [] = 0"
| "calculatePageBlocksHeight ht (b # bs) =
     (if pageBreak b
      then (if bs \<noteq> [] then getPageContentMaxHeight + 1000 else 0)
      else ht b) + calculatePageBlocksHeight ht bs"

subsection \<open>Forward overflow\<close>

text \<open>
  The split-point loop of \<^verbatim>\<open>handleForwardOverflow\<close>: \<open>i\<close> is the loop index,
  \<open>acc\<close> is \<^verbatim>\<open>accumulatedHeight\<close>, the list holds the blocks from index \<open>i\<close> on.
  \<open>None\<close> is \<^verbatim>\<open>splitIndex === -1\<close>.
\<close>

fun findSplitIndex :: "heightOracle \<Rightarrow> nat \<Rightarrow> nat \<Rightarrow> element list \<Rightarrow> nat option" where
  "findSplitIndex ht i acc [] = None"
| "findSplitIndex ht i acc (b # bs) =
     (if pageBreak b
      then (if bs \<noteq> [] then Some (i + 1) else findSplitIndex ht (i + 1) acc bs)
      else (if acc + ht b > getPageContentMaxHeight then Some i
            else findSplitIndex ht (i + 1) (acc + ht b) bs))"

text \<open>
  \<^verbatim>\<open>getOrCreateNextPage\<close>: an existing next page is returned as it is, otherwise an
  empty page is spliced in at \<^verbatim>\<open>currentPageIndex + 1\<close>.
\<close>

definition getOrCreateNextPage :: "nat \<Rightarrow> page list \<Rightarrow> page list" where
  "getOrCreateNextPage currentPageIndex pages =
     (if currentPageIndex + 1 < length pages then pages
      else take (currentPageIndex + 1) pages @ [[]] @ drop (currentPageIndex + 1) pages)"

text \<open>
  \<^verbatim>\<open>moveBlocksToNextPage\<close>: the blocks from \<^verbatim>\<open>startBlockIndex\<close> to the end are taken
  in reverse and each is inserted before the destination's first child, so they arrive in
  their original order; a block without an id is skipped and stays where it is.
\<close>

definition moveBlocksToNextPage :: "nat \<Rightarrow> nat \<Rightarrow> nat \<Rightarrow> page list \<Rightarrow> page list" where
  "moveBlocksToNextPage fromPageIndex toPageIndex startBlockIndex pages =
     (if \<not> (fromPageIndex < length pages \<and> toPageIndex < length pages) then pages
      else let blockElements = pages ! fromPageIndex in
        if startBlockIndex \<ge> length blockElements then pages
        else let blocksToMove = drop startBlockIndex blockElements;
                 pages1 = pages[fromPageIndex :=
                   take startBlockIndex blockElements @ filter (\<lambda>b. \<not> hasBlockId b) blocksToMove]
             in pages1[toPageIndex := filter hasBlockId blocksToMove @ pages1 ! toPageIndex])"

text \<open>What \<^verbatim>\<open>handleForwardOverflow\<close> tests before it moves anything from a page.\<close>

definition needsSplit :: "heightOracle \<Rightarrow> page \<Rightarrow> bool" where
  "needsSplit ht blocks =
     (calculatePageBlocksHeight ht blocks > getPageContentMaxHeight
      \<and> length (nonPageBreakBlocks blocks) > 1)"

text \<open>
  One run of the \<^verbatim>\<open>for\<close> loop over the pages, from \<open>pageIndex\<close>: \<open>Some\<close> is the
  page list after the first move (\<^verbatim>\<open>hasChanges = true; break\<close>), \<open>None\<close> is a run
  that reached the end without a move.
\<close>

function forwardScan :: "heightOracle \<Rightarrow> nat \<Rightarrow> page list \<Rightarrow> page list option" where
  "forwardScan ht pageIndex pages =
     (if pageIndex < length pages then
        (if needsSplit ht (pages ! pageIndex) then
           (case findSplitIndex ht 0 0 (pages ! pageIndex) of
              Some splitIndex \<Rightarrow>
                if splitIndex < length (pages ! pageIndex)
                then Some (moveBlocksToNextPage pageIndex (pageIndex + 1) splitIndex
                             (getOrCreateNextPage pageIndex pages))
                else forwardScan ht (pageIndex + 1) pages
            | None \<Rightarrow> forwardScan ht (pageIndex + 1) pages)
         else forwardScan ht (pageIndex + 1) pages)
      else None)"
  by pat_completeness auto
termination
  by (relation "measure (\<lambda>(ht, pageIndex, pages). length pages - pageIndex)") auto

text \<open>
  The \<^verbatim>\<open>while (hasChanges)\<close> loop. Nothing bounds the number of its rounds, so the
  result is optional: \<open>None\<close> is a loop that never ends.
\<close>

partial_function (option) forwardLoop :: "heightOracle \<Rightarrow> page list \<Rightarrow> page list option" where
  "forwardLoop ht pages =
     (case forwardScan ht 0 pages of
        None \<Rightarrow> Some pages
      | Some pages' \<Rightarrow> forwardLoop ht pages')"

definition handleForwardOverflow :: "heightOracle \<Rightarrow> page list \<Rightarrow> page list option" where
  "handleForwardOverflow ht pages = (if pages = [] then Some pages else forwardLoop ht pages)"

subsection \<open>Reverse compaction\<close>

text \<open>
  \<^verbatim>\<open>moveBlocksToPreviousPage\<close>: the blocks \<^verbatim>\<open>slice(startBlockIndex, endBlockIndex)\<close>
  are appended to the destination in order; a block without an id stays.
\<close>

definition moveBlocksToPreviousPage ::
    "nat \<Rightarrow> nat \<Rightarrow> nat \<Rightarrow> nat \<Rightarrow> page list \<Rightarrow> page list" where
  "moveBlocksToPreviousPage fromPageIndex toPageIndex startBlockIndex endBlockIndex pages =
     (if \<not> (fromPageIndex < length pages \<and> toPageIndex < length pages) then pages
      else let blockElements = pages ! fromPageIndex in
        if startBlockIndex \<ge> length blockElements \<or> endBlockIndex > length blockElements
        then pages
        else let blocksToMove = drop startBlockIndex (take endBlockIndex blockElements);
                 pages1 = pages[fromPageIndex :=
                   take startBlockIndex blockElements
                   @ filter (\<lambda>b. \<not> hasBlockId b) blocksToMove
                   @ drop endBlockIndex blockElements]
             in pages1[toPageIndex := pages1 ! toPageIndex @ filter hasBlockId blocksToMove])"

text \<open>
  The scan over the next page's blocks: \<open>i\<close> is the loop index, \<open>h\<close> is
  \<^verbatim>\<open>currentPageHeight\<close>, \<open>enc\<close> is \<^verbatim>\<open>encounteredPageBreak\<close>; the result is
  \<^verbatim>\<open>blocksToMove\<close>, the indices pushed before the loop ended or broke.
\<close>

fun scanNextPage :: "heightOracle \<Rightarrow> nat \<Rightarrow> nat \<Rightarrow> bool \<Rightarrow> element list \<Rightarrow> nat list" where
  "scanNextPage ht i h enc [] = []"
| "scanNextPage ht i h enc (b # bs) =
     (if pageBreak b then i # scanNextPage ht (i + 1) h True bs
      else let blockHeight = (if enc then getPageContentMaxHeight + 1000 else ht b) in
        if h + blockHeight \<le> getPageContentMaxHeight
        then i # scanNextPage ht (i + 1) (h + blockHeight) enc bs
        else [])"

text \<open>The body of the \<^verbatim>\<open>for\<close> loop of \<^verbatim>\<open>handleReverseCompaction\<close> at one page index.\<close>

definition compactPage :: "heightOracle \<Rightarrow> nat \<Rightarrow> page list \<Rightarrow> page list" where
  "compactPage ht pageIndex pages =
     (let currentPageBlocks = pages ! pageIndex;
          nextPageBlocks = pages ! (pageIndex + 1) in
      if nextPageBlocks = [] then pages
      else if \<exists>b \<in> set currentPageBlocks. pageBreak b then pages
      else let currentPageHeight = sum_list (map ht currentPageBlocks);
               blocksToMove = sort (scanNextPage ht 0 currentPageHeight False nextPageBlocks)
           in if blocksToMove \<noteq> []
              then moveBlocksToPreviousPage (pageIndex + 1) pageIndex
                     (hd blocksToMove) (last blocksToMove + 1) pages
              else pages)"

function reverseFrom :: "heightOracle \<Rightarrow> nat \<Rightarrow> page list \<Rightarrow> page list" where
  "reverseFrom ht pageIndex pages =
     (if pageIndex + 1 < length pages
      then reverseFrom ht (pageIndex + 1) (compactPage ht pageIndex pages)
      else pages)"
  by pat_completeness auto
termination
  by (relation "measure (\<lambda>(ht, pageIndex, pages). length pages - pageIndex)")
     (auto simp: compactPage_def moveBlocksToPreviousPage_def Let_def)

definition handleReverseCompaction :: "heightOracle \<Rightarrow> nat \<Rightarrow> page list \<Rightarrow> page list" where
  "handleReverseCompaction ht startPageIndex pages =
     (if pages = [] then pages else reverseFrom ht startPageIndex pages)"

subsection \<open>Pruning and the whole pass\<close>

text \<open>
  \<^verbatim>\<open>removeEmptyPages\<close> walks the indices from the last one down to 0; \<open>removeFrom n\<close>
  handles the indices \<open>n - 1, \<dots>, 0\<close>. A page goes when it has no block other than page
  breaks and more than one page is left at that moment.
\<close>

fun removeFrom :: "nat \<Rightarrow> page list \<Rightarrow> page list" where
  "removeFrom 0 pages = pages"
| "removeFrom (Suc i) pages =
     removeFrom i
       (if length (nonPageBreakBlocks (pages ! i)) = 0 \<and> length pages > 1
        then take i pages @ drop (Suc i) pages
        else pages)"

definition removeEmptyPages :: "page list \<Rightarrow> page list" where
  "removeEmptyPages pages = (if pages = [] then pages else removeFrom (length pages) pages)"

text \<open>
  \<^verbatim>\<open>handlePageOverflow\<close>; \<open>currentPageIndex\<close> is \<^verbatim>\<open>findCurrentPageIndex() ?? 0\<close>, the
  page of the focused block. The pass returns only if forward overflow does.
\<close>

definition handlePageOverflow :: "heightOracle \<Rightarrow> nat \<Rightarrow> page list \<Rightarrow> page list option" where
  "handlePageOverflow ht currentPageIndex pages =
     (if pages = [] then Some pages
      else case handleForwardOverflow ht pages of
             None \<Rightarrow> None
           | Some pages1 \<Rightarrow>
               Some (removeEmptyPages (handleReverseCompaction ht currentPageIndex pages1)))"

section \<open>The document snapshot and its persistence\<close>

text \<open>
  \<^verbatim>\<open>src/models/document.ts\<close>. Of a block's metadata only the page-break flag is kept
  (alignment and heading level play no part below). Timestamps are epoch milliseconds.
\<close>

record Block =
  block_id :: string
  block_type :: BlockType
  content :: string
  isPageBreak :: bool

record DocumentPage =
  number :: nat
  blocks :: "Block list"

record Document =
  doc_id :: string
  title :: string
  pages :: "DocumentPage list"
  createdAt :: int
  updatedAt :: int

subsection \<open>Serialised content\<close>

definition formatName :: "FormatType \<Rightarrow> string" where
  "formatName f = (case f of Bold \<Rightarrow> ''bold'' | Italic \<Rightarrow> ''italic''
                   | Underline \<Rightarrow> ''underline'' | Strikethrough \<Rightarrow> ''strikethrough'')"

text \<open>\<^verbatim>\<open>Array.prototype.join(' ')\<close> on the token names.\<close>

fun joinFormats :: "FormatType list \<Rightarrow> string" where
  "joinFormats [] = []"
| "joinFormats [f] = formatName f"
| "joinFormats (f # g # fs) = formatName f @ '' '' @ joinFormats (g # fs)"

text \<open>
  \<^verbatim>\<open>innerHTML\<close> of such a forest, as \<^verbatim>\<open>extractFormattedContent\<close> reads it: text is
  written with \<^verbatim>\<open>&\<close>, \<^verbatim>\<open><\<close>, \<^verbatim>\<open>>\<close> and the no-break space escaped.
\<close>

definition escapeChar :: "char \<Rightarrow> string" where
  "escapeChar c =
     (if c = CHR ''&'' then ''&amp;''
      else if c = CHR ''<'' then ''&lt;''
      else if c = CHR ''>'' then ''&gt;''
      else if c = CHR 0xA0 then ''&nbsp;''
      else [c])"

fun innerHTML :: "node list \<Rightarrow> string" and outerHTML :: "node \<Rightarrow> string" where
  "innerHTML [] = []"
| "innerHTML (n # ns) = outerHTML n @ innerHTML ns"
| "outerHTML (Text s) = concat (map escapeChar s)"
| "outerHTML (Span fs ch) =
     ''<span data-format=\"'' @ joinFormats fs @ ''\">'' @ innerHTML ch @ ''</span>''"

subsection \<open>Rebuilding the snapshot from the pages\<close>

text \<open>
  \<^verbatim>\<open>recreateDocumentFromDOM\<close>: a block element without an id is left out, a page without
  blocks is filtered out unless it is the last of the array, the pages are renumbered, and
  an empty page list gets one page with \<^verbatim>\<open>blocks: []\<close>. \<open>now\<close> is \<^verbatim>\<open>Date.now()\<close>.
\<close>

definition blockOfElement :: "element \<Rightarrow> Block" where
  "blockOfElement el =
     \<lparr>block_id = (case blockId el of None \<Rightarrow> [] | Some s \<Rightarrow> s),
      block_type = (if pageBreak el then Paragraph else kind el),
      content = (if pageBreak el then [] else innerHTML (childNodes el)),
      isPageBreak = pageBreak el\<rparr>"

definition pagesFromDOM :: "page list \<Rightarrow> DocumentPage list" where
  "pagesFromDOM pageRefs =
     (let mapped = map (\<lambda>(pageIndex, blockElements).
                      \<lparr>number = pageIndex + 1,
                       blocks = map blockOfElement (filter hasBlockId blockElements)\<rparr>)
                    (zip [0 ..< length pageRefs] pageRefs);
          kept = map snd (filter (\<lambda>(index, page). length (blocks page) > 0
                                        \<or> index + 1 = length mapped)
                            (zip [0 ..< length mapped] mapped));
          renumbered = map (\<lambda>(index, page). page\<lparr>number := index + 1\<rparr>)
                         (zip [0 ..< length kept] kept)
      in if length renumbered = 0 then [\<lparr>number = 1, blocks = []\<rparr>] else renumbered)"

definition recreateDocumentFromDOM :: "Document \<Rightarrow> int \<Rightarrow> page list \<Rightarrow> Document" where
  "recreateDocumentFromDOM document now pageRefs =
     document\<lparr>pages := pagesFromDOM pageRefs, updatedAt := now\<rparr>"

subsection \<open>Saving\<close>

text \<open>
  \<^verbatim>\<open>saveDocument\<close> of \<^verbatim>\<open>src/storage/local.ts\<close> assigns to a field of the object it is
  given, so the caller's objects are an explicit heap; \<open>documents\<close> is the object store
  of the database, keyed by \<^verbatim>\<open>id\<close>.
\<close>

record world =
  heap :: "nat \<rightharpoonup> Document"
  documents :: "string \<rightharpoonup> Document"

definition saveDocument :: "int \<Rightarrow> nat \<Rightarrow> world \<Rightarrow> world" where
  "saveDocument now doc w =
     (case heap w doc of
        None \<Rightarrow> w
      | Some d \<Rightarrow>
          let d' = d\<lparr>updatedAt := now\<rparr>
          in w\<lparr>heap := (heap w)(doc \<mapsto> d'),
               documents := (documents w)(doc_id d' \<mapsto> d')\<rparr>)"

section \<open>Inserting a page break\<close>


fun textContent :: "node list \<Rightarrow> string" and nodeText :: "node \<Rightarrow> string" where
  "textContent [] = []"
| "textContent (n # ns) = nodeText n @ textContent ns"
| "nodeText (Text s) = s"
| "nodeText (Span fs ch) = textContent ch"



definition pageBreakElement :: "string \<Rightarrow> element" where
  "pageBreakElement pageBreakId =
     \<lparr>blockId = Some pageBreakId, pageBreak = True, kind = Paragraph, childNodes = []\<rparr>"


section \<open>Inline formatting\<close>

text \<open>
  A selection inside one block, with both boundary points in text nodes: the containers
  are numbered as a \<^verbatim>\<open>TreeWalker\<close> over the block's text nodes meets them.
\<close>

record domRange =
  startContainer :: nat
  startOffset :: nat
  endContainer :: nat
  endOffset :: nat

text \<open>
  The text nodes of a forest in document order, each with the \<^verbatim>\<open>data-format\<close> token
  lists of the spans around it, the nearest span first.
\<close>

fun walkNodes :: "FormatType list list \<Rightarrow> node list \<Rightarrow> (string \<times> FormatType list list) list"
  and walkNode :: "FormatType list list \<Rightarrow> node \<Rightarrow> (string \<times> FormatType list list) list" where
  "walkNodes anc [] = []"
| "walkNodes anc (n # ns) = walkNode anc n @ walkNodes anc ns"
| "walkNode anc (Text s) = [(s, anc)]"
| "walkNode anc (Span fs ch) = walkNodes (fs # anc) ch"

definition validRange :: "domRange \<Rightarrow> node list \<Rightarrow> bool" where
  "validRange rng ns =
     (let texts = map fst (walkNodes [] ns) in
      startContainer rng \<le> endContainer rng
      \<and> endContainer rng < length texts
      \<and> startOffset rng \<le> length (texts ! startContainer rng)
      \<and> endOffset rng \<le> length (texts ! endContainer rng)
      \<and> (startContainer rng = endContainer rng \<longrightarrow> startOffset rng \<le> endOffset rng))"

definition collapsed :: "domRange \<Rightarrow> bool" where
  "collapsed rng =
     (startContainer rng = endContainer rng \<and> startOffset rng = endOffset rng)"

definition allFormats :: "FormatType list" where
  "allFormats = [Bold, Italic, Underline, Strikethrough]"

text \<open>
  \<^verbatim>\<open>getActiveFormats\<close>. The walker is rooted at the range's common ancestor and
  \<^verbatim>\<open>nextNode()\<close> never yields the root: a selection inside a single text node finds no
  text node and takes the fallback, the tokens of the nearest format span around the
  start container. Otherwise the text nodes met are those from the start container to the
  end container, and a format is active when each of them has a span with it around it.
\<close>

definition getActiveFormats :: "domRange \<Rightarrow> node list \<Rightarrow> FormatType list" where
  "getActiveFormats rng ns =
     (let walked = walkNodes [] ns in
      if startContainer rng = endContainer rng
      then (case snd (walked ! startContainer rng) of
              [] \<Rightarrow> []
            | fs # _ \<Rightarrow> filter (\<lambda>f. f \<in> set fs) allFormats)
      else let textNodes = drop (startContainer rng) (take (endContainer rng + 1) walked)
           in filter (\<lambda>format. list_all (\<lambda>textNode. format \<in> set (concat (snd textNode)))
                                  textNodes)
                allFormats)"

text \<open>
  \<^verbatim>\<open>Array.from(set).sort()\<close> on format names: the distinct tokens in the order of their
  names, \<^verbatim>\<open>bold\<close>, \<^verbatim>\<open>italic\<close>, \<^verbatim>\<open>strikethrough\<close>, \<^verbatim>\<open>underline\<close>.
\<close>

definition formatRank :: "FormatType \<Rightarrow> nat" where
  "formatRank f = (case f of Bold \<Rightarrow> 0 | Italic \<Rightarrow> 1 | Strikethrough \<Rightarrow> 2 | Underline \<Rightarrow> 3)"

definition sortFormats :: "FormatType list \<Rightarrow> FormatType list" where
  "sortFormats fs = sort_key formatRank (remdups fs)"

text \<open>
  The two walks of \<^verbatim>\<open>applyFormat\<close> that turn a character index into a boundary point:
  the first text node with \<^verbatim>\<open>charCount + textLength >= index\<close>, and the offset clamped
  into it. \<open>None\<close>: no such text node, the boundary of \<^verbatim>\<open>selectNodeContents(block)\<close>
  stays.
\<close>

fun findPosition :: "nat \<Rightarrow> nat \<Rightarrow> nat \<Rightarrow> string list \<Rightarrow> (nat \<times> nat) option" where
  "findPosition index k charCount [] = None"
| "findPosition index k charCount (t # ts) =
     (if charCount + length t \<ge> index
      then Some (k, max 0 (min (index - charCount) (length t)))
      else findPosition index (k + 1) (charCount + length t) ts)"

text \<open>
  \<^verbatim>\<open>breakSelectionIntoCharacterNodes\<close>. \<open>k\<close> numbers the text nodes of the block; a
  text node that the range intersects, with \<^verbatim>\<open>startOffset < endOffset\<close> and more than
  one character, is replaced in its parent by the text before, one node per selected
  character (inside a new span with the sorted formats of all spans around the text node,
  when there are any) and the text after.
\<close>

definition charNode :: "FormatType list \<Rightarrow> char \<Rightarrow> node" where
  "charNode existingFormats c =
     (if existingFormats \<noteq> [] then Span existingFormats [Text [c]] else Text [c])"

definition breakText ::
    "(nat \<times> nat) option \<Rightarrow> (nat \<times> nat) option \<Rightarrow> FormatType list list \<Rightarrow> nat \<Rightarrow> string
     \<Rightarrow> node list" where
  "breakText rangeStart rangeEnd anc k text =
     (let intersects = ((case rangeStart of None \<Rightarrow> True | Some (ks, _) \<Rightarrow> ks \<le> k)
                        \<and> (case rangeEnd of None \<Rightarrow> True | Some (ke, _) \<Rightarrow> k \<le> ke));
          startOff = (case rangeStart of None \<Rightarrow> 0 | Some (ks, os) \<Rightarrow> if ks = k then os else 0);
          endOff = (case rangeEnd of None \<Rightarrow> length text
                    | Some (ke, oe) \<Rightarrow> if ke = k then oe else length text)
      in if intersects \<and> startOff < endOff \<and> length text \<noteq> 1
         then let beforeText = take startOff text;
                  selectedText = drop startOff (take endOff text);
                  afterText = drop endOff text;
                  existingFormats = sortFormats (concat anc)
              in (if beforeText \<noteq> [] then [Text beforeText] else [])
                 @ map (charNode existingFormats) selectedText
                 @ (if afterText \<noteq> [] then [Text afterText] else [])
         else [Text text])"

fun breakNodes ::
    "(nat \<times> nat) option \<Rightarrow> (nat \<times> nat) option \<Rightarrow> FormatType list list \<Rightarrow> nat \<Rightarrow> node list
     \<Rightarrow> node list \<times> nat"
  and breakNode ::
    "(nat \<times> nat) option \<Rightarrow> (nat \<times> nat) option \<Rightarrow> FormatType list list \<Rightarrow> nat \<Rightarrow> node
     \<Rightarrow> node list \<times> nat" where
  "breakNodes rs re anc k [] = ([], k)"
| "breakNodes rs re anc k (n # ns) =
     (case breakNode rs re anc k n of
        (ms, k1) \<Rightarrow> (case breakNodes rs re anc k1 ns of (ms', k2) \<Rightarrow> (ms @ ms', k2)))"
| "breakNode rs re anc k (Text t) = (breakText rs re anc k t, k + 1)"
| "breakNode rs re anc k (Span fs ch) =
     (case breakNodes rs re (fs # anc) k ch of (ch', k1) \<Rightarrow> ([Span fs ch'], k1))"

definition breakSelectionIntoCharacterNodes ::
    "(nat \<times> nat) option \<Rightarrow> (nat \<times> nat) option \<Rightarrow> node list \<Rightarrow> node list" where
  "breakSelectionIntoCharacterNodes rangeStart rangeEnd ns =
     fst (breakNodes rangeStart rangeEnd [] 0 ns)"

text \<open>
  Step 2 of \<^verbatim>\<open>applyFormat\<close>. A text node is to be updated when it has one character
  and starts inside \<open>[blockStart, blockEnd)\<close>. \<open>selectedChild\<close> says whether a span
  has such a text node as a direct child; then the span's token set loses or gains the
  format and is written back sorted, or the span is unwrapped when no token is left. A
  text node to update that sits directly in the block is wrapped in a new span, unless the
  format is being removed.
\<close>

fun selectedChild :: "nat \<Rightarrow> nat \<Rightarrow> nat \<Rightarrow> node list \<Rightarrow> bool" where
  "selectedChild blockStart blockEnd c [] = False"
| "selectedChild blockStart blockEnd c (Text t # ns) =
     ((length t = 1 \<and> blockStart \<le> c \<and> c < blockEnd)
      \<or> selectedChild blockStart blockEnd (c + length t) ns)"
| "selectedChild blockStart blockEnd c (Span fs ch # ns) =
     selectedChild blockStart blockEnd (c + length (textContent ch)) ns"

definition updatedFormats :: "FormatType \<Rightarrow> bool \<Rightarrow> FormatType list \<Rightarrow> FormatType list" where
  "updatedFormats format shouldRemove fs =
     sortFormats (if shouldRemove then filter (\<lambda>f. f \<noteq> format) fs else fs @ [format])"

fun updateNodes ::
    "FormatType \<Rightarrow> bool \<Rightarrow> nat \<Rightarrow> nat \<Rightarrow> bool \<Rightarrow> nat \<Rightarrow> node list \<Rightarrow> node list \<times> nat"
  and updateNode ::
    "FormatType \<Rightarrow> bool \<Rightarrow> nat \<Rightarrow> nat \<Rightarrow> bool \<Rightarrow> nat \<Rightarrow> node \<Rightarrow> node list \<times> nat" where
  "updateNodes format shouldRemove bs be inBlock c [] = ([], c)"
| "updateNodes format shouldRemove bs be inBlock c (n # ns) =
     (case updateNode format shouldRemove bs be inBlock c n of
        (ms, c1) \<Rightarrow>
          (case updateNodes format shouldRemove bs be inBlock c1 ns of
             (ms', c2) \<Rightarrow> (ms @ ms', c2)))"
| "updateNode format shouldRemove bs be inBlock c (Text t) =
     (if inBlock \<and> length t = 1 \<and> bs \<le> c \<and> c < be \<and> \<not> shouldRemove
      then [Span [format] [Text t]] else [Text t],
      c + length t)"
| "updateNode format shouldRemove bs be inBlock c (Span fs ch) =
     (case updateNodes format shouldRemove bs be False c ch of
        (ch', c1) \<Rightarrow>
          (if selectedChild bs be c ch
           then (let formatArray = updatedFormats format shouldRemove fs
                 in if length formatArray = 0 then ch' else [Span formatArray ch'])
           else [Span fs ch'],
           c1))"

text \<open>
  \<^verbatim>\<open>applyFormat\<close> on the block of the selection. The call of
  \<^verbatim>\<open>mergeAdjacentNodesWithSameFormatting\<close> that would follow as step 3 is commented
  out in the source, so nothing follows step 2.
\<close>

definition applyFormat :: "FormatType \<Rightarrow> domRange \<Rightarrow> node list \<Rightarrow> node list" where
  "applyFormat format rng ns =
     (if \<not> validRange rng ns then ns
      else if collapsed rng then ns
      else let existingFormats = getActiveFormats rng ns;
               shouldRemove = (format \<in> set existingFormats);
               texts = map fst (walkNodes [] ns);
               blockStartCharIndex =
                 length (concat (take (startContainer rng) texts)) + startOffset rng;
               blockEndCharIndex =
                 length (concat (take (endContainer rng) texts)) + endOffset rng;
               rangeStart = findPosition blockStartCharIndex 0 0 texts;
               rangeEnd = findPosition blockEndCharIndex 0 0 texts;
               broken = breakSelectionIntoCharacterNodes rangeStart rangeEnd ns
           in fst (updateNodes format shouldRemove blockStartCharIndex blockEndCharIndex
                     True 0 broken))"

subsection \<open>Runs and canonical form, in the specification's words\<close>

text \<open>
  The run list of a block: its text nodes in order, each with the set of formats of the
  spans around it, written as a sorted list. Canonical form: no run is empty and no two
  adjacent runs carry the same format set.
\<close>

definition runList :: "node list \<Rightarrow> (string \<times> FormatType list) list" where
  "runList ns = map (\<lambda>(t, anc). (t, sortFormats (concat anc))) (walkNodes [] ns)"

fun adjacentFormatsDiffer :: "(string \<times> FormatType list) list \<Rightarrow> bool" where
  "adjacentFormatsDiffer (r # r' # rs) = (snd r \<noteq> snd r' \<and> adjacentFormatsDiffer (r' # rs))"
| "adjacentFormatsDiffer rs = True"

definition canonicalRuns :: "(string \<times> FormatType list) list \<Rightarrow> bool" where
  "canonicalRuns rs = (list_all (\<lambda>r. fst r \<noteq> []) rs \<and> adjacentFormatsDiffer rs)"

section \<open>Example blocks and heights\<close>

text \<open>
  A paragraph block with a given id and no content, and a height oracle that reads the
  height of a block off a table of ids (0 for a block that is not in the table).
\<close>

definition contentBlock :: "string \<Rightarrow> element" where
  "contentBlock s = \<lparr>blockId = Some s, pageBreak = False, kind = Paragraph, childNodes = []\<rparr>"

definition heightTable :: "(string \<times> nat) list \<Rightarrow> heightOracle" where
  "heightTable tbl el =
     (case blockId el of
        None \<Rightarrow> 0
      | Some s \<Rightarrow> (case map_of tbl s of None \<Rightarrow> 0 | Some h \<Rightarrow> h))"

text \<open>
  A page on which no content block comes after a page break: page breaks only trail.
\<close>

fun noContentAfterBreak :: "page \<Rightarrow> bool" where
  "noContentAfterBreak [] = True"
| "noContentAfterBreak (b # bs) =
     (if pageBreak b then list_all pageBreak bs else noContentAfterBreak bs)"

text \<open>
  What a completed pass leaves of the budget invariant: a page with more than one content
  block is within the budget.
\<close>

definition budgetOrSingle :: "heightOracle \<Rightarrow> page \<Rightarrow> bool" where
  "budgetOrSingle ht p =
     (1 < length (nonPageBreakBlocks p) \<longrightarrow> contentHeight ht p \<le> getPageContentMaxHeight)"

section \<open>Properties of the flow engine\<close>

declare forwardScan.simps [simp del] reverseFrom.simps [simp del]
declare forwardLoop.simps [code]

lemmas evalFlow =
  handlePageOverflow_def handleForwardOverflow_def forwardLoop.simps forwardScan.simps
  needsSplit_def getPageContentMaxHeight_def nonPageBreakBlocks_def contentHeight_def
  getOrCreateNextPage_def moveBlocksToNextPage_def handleReverseCompaction_def
  reverseFrom.simps compactPage_def moveBlocksToPreviousPage_def removeEmptyPages_def
  hasBlockId_def contentBlock_def heightTable_def pageBreakElement_def Let_def

subsection \<open>Heights\<close>

lemma contentHeight_Nil [simp]: "contentHeight ht [] = 0"
  by (simp add: contentHeight_def nonPageBreakBlocks_def)

lemma contentHeight_Cons [simp]:
  "contentHeight ht (b # bs) = (if pageBreak b then 0 else ht b) + contentHeight ht bs"
  by (simp add: contentHeight_def nonPageBreakBlocks_def)

lemma contentHeight_append [simp]:
  "contentHeight ht (xs @ ys) = contentHeight ht xs + contentHeight ht ys"
  by (induction xs) auto

lemma nonPageBreakBlocks_simps [simp]:
  "nonPageBreakBlocks [] = []"
  "nonPageBreakBlocks (b # bs) = (if pageBreak b then nonPageBreakBlocks bs else b # nonPageBreakBlocks bs)"
  "nonPageBreakBlocks (xs @ ys) = nonPageBreakBlocks xs @ nonPageBreakBlocks ys"
  by (simp_all add: nonPageBreakBlocks_def)

lemma contentHeight_le_calculate: "contentHeight ht bs \<le> calculatePageBlocksHeight ht bs"
  by (induction bs) auto

lemma findSplitIndex_found:
  "acc \<le> getPageContentMaxHeight \<Longrightarrow>
   acc + calculatePageBlocksHeight ht bs > getPageContentMaxHeight \<Longrightarrow>
   \<exists>s. findSplitIndex ht i acc bs = Some s \<and> i \<le> s \<and> s < i + length bs"
proof (induction bs arbitrary: i acc)
  case Nil
  then show ?case by simp
next
  case (Cons b bs)
  show ?case
  proof (cases "pageBreak b")
    case True
    then show ?thesis using Cons.prems by (cases bs) auto
  next
    case nb: False
    show ?thesis
    proof (cases "acc + ht b > getPageContentMaxHeight")
      case True
      then show ?thesis using nb by simp
    next
      case False
      then have "\<exists>s. findSplitIndex ht (i + 1) (acc + ht b) bs = Some s \<and> i + 1 \<le> s \<and> s < (i + 1) + length bs"
        using Cons.prems nb by (intro Cons.IH) (auto simp: add.assoc)
      then show ?thesis using nb False by auto
    qed
  qed
qed

lemma forwardScan_None:
  "forwardScan ht i pgs = None \<Longrightarrow> i \<le> j \<Longrightarrow> j < length pgs \<Longrightarrow> \<not> needsSplit ht (pgs ! j)"
proof (induction ht i pgs rule: forwardScan.induct)
  case (1 ht pageIndex pgs)
  from "1.prems" have lt: "pageIndex < length pgs" by simp
  show ?case
  proof (cases "needsSplit ht (pgs ! pageIndex)")
    case True
    then obtain s where s: "findSplitIndex ht 0 0 (pgs ! pageIndex) = Some s" "s < length (pgs ! pageIndex)"
      using findSplitIndex_found[of 0 ht "pgs ! pageIndex" 0]
      by (auto simp: needsSplit_def)
    with True lt "1.prems"(1) show ?thesis
      by (simp add: forwardScan.simps[of ht pageIndex pgs])
  next
    case False
    then have rec: "forwardScan ht (pageIndex + 1) pgs = None"
      using "1.prems"(1) lt by (simp add: forwardScan.simps[of ht pageIndex pgs])
    show ?thesis
    proof (cases "j = pageIndex")
      case True
      then show ?thesis using False by simp
    next
      case ne: False
      then have "pageIndex + 1 \<le> j" using "1.prems"(2) by simp
      then show ?thesis using "1.IH"(3)[OF lt False rec _ "1.prems"(3)] by simp
    qed
  qed
qed

lemma forwardLoop_fixpoint:
  "forwardLoop ht pgs = Some out \<Longrightarrow> forwardScan ht 0 out = None"
proof (induction rule: forwardLoop.raw_induct[rotated 1, consumes 1])
  case (1 f ht pgs out)
  then show ?case by (auto split: option.splits)
qed

subsection \<open>The scan of reverse compaction\<close>

lemma scanNextPage_upt_ex:
  "\<exists>k. scanNextPage ht i h enc bs = [i ..< i + k]"
proof (induction bs arbitrary: i h enc)
  case Nil
  have "scanNextPage ht i h enc [] = [i ..< i + 0]" by simp
  then show ?case by blast
next
  case (Cons b bs)
  have step: "\<exists>k. i # scanNextPage ht (i + 1) h' enc' bs = [i ..< i + k]" for h' enc'
  proof -
    obtain k where "scanNextPage ht (i + 1) h' enc' bs = [i + 1 ..< i + 1 + k]"
      using Cons.IH by blast
    then have "i # scanNextPage ht (i + 1) h' enc' bs = [i ..< i + Suc k]"
      by (simp add: upt_conv_Cons)
    then show ?thesis by blast
  qed
  have empty: "\<exists>k. [] = [i ..< i + k]" by (rule exI[of _ 0]) simp
  show ?case using step empty by (simp add: Let_def)
qed

lemma scanNextPage_upt:
  "scanNextPage ht i h enc bs = [i ..< i + length (scanNextPage ht i h enc bs)]"
proof -
  obtain k where k: "scanNextPage ht i h enc bs = [i ..< i + k]"
    using scanNextPage_upt_ex by blast
  then have "length (scanNextPage ht i h enc bs) = k" by simp
  with k show ?thesis by simp
qed

lemma scanNextPage_length_le:
  "length (scanNextPage ht i h enc bs) \<le> length bs"
  by (induction bs arbitrary: i h enc) (auto simp: Let_def)

lemma scanNextPage_after_break:
  "b \<in> set (take (length (scanNextPage ht i h True bs)) bs) \<Longrightarrow> pageBreak b"
  by (induction bs arbitrary: i h) (auto simp: Let_def getPageContentMaxHeight_def split: if_splits)

lemma scanNextPage_budget:
  "\<exists>b \<in> set (take (length (scanNextPage ht i h False bs)) bs). \<not> pageBreak b \<Longrightarrow>
   h + contentHeight ht (take (length (scanNextPage ht i h False bs)) bs) \<le> getPageContentMaxHeight"
proof (induction bs arbitrary: i h)
  case Nil
  then show ?case by simp
next
  case (Cons b bs)
  show ?case
  proof (cases "pageBreak b")
    case True
    then show ?thesis using Cons.prems scanNextPage_after_break[of _ ht "i + 1" h bs] by auto
  next
    case nb: False
    show ?thesis
    proof (cases "h + ht b \<le> getPageContentMaxHeight")
      case fits: True
      let ?k = "length (scanNextPage ht (i + 1) (h + ht b) False bs)"
      show ?thesis
      proof (cases "\<exists>c \<in> set (take ?k bs). \<not> pageBreak c")
        case True
        from Cons.IH[OF True] show ?thesis using nb fits by (simp add: Let_def add.assoc)
      next
        case False
        then have "contentHeight ht (take ?k bs) = 0"
          by (simp add: contentHeight_def nonPageBreakBlocks_def filter_False)
        then show ?thesis using nb fits by (simp add: Let_def)
      qed
    next
      case False
      then show ?thesis using Cons.prems nb by (simp add: Let_def)
    qed
  qed
qed

lemma noContentAfterBreak_all_breaks:
  "list_all pageBreak xs \<Longrightarrow> noContentAfterBreak xs"
  by (induction xs) auto

lemma noContentAfterBreak_filter:
  "noContentAfterBreak xs \<Longrightarrow> noContentAfterBreak (filter P xs)"
proof (induction xs)
  case Nil
  then show ?case by simp
next
  case (Cons b bs)
  show ?case
  proof (cases "pageBreak b")
    case True
    then have all: "list_all pageBreak (filter P bs)"
      using Cons.prems by (simp add: list_all_iff)
    then show ?thesis using True noContentAfterBreak_all_breaks[OF all] by simp
  next
    case False
    then show ?thesis using Cons by simp
  qed
qed

lemma noContentAfterBreak_append_content:
  "\<forall>b \<in> set xs. \<not> pageBreak b \<Longrightarrow> noContentAfterBreak (xs @ ys) = noContentAfterBreak ys"
  by (induction xs) auto

lemma scanNextPage_pulled_shape:
  "noContentAfterBreak (take (length (scanNextPage ht i h enc bs)) bs)"
proof (induction bs arbitrary: i h enc)
  case Nil
  then show ?case by simp
next
  case (Cons b bs)
  show ?case
  proof (cases "pageBreak b")
    case True
    have "list_all pageBreak (take (length (scanNextPage ht (i + 1) h True bs)) bs)"
      using scanNextPage_after_break[of _ ht "i + 1" h bs] by (auto simp: list_all_iff)
    then show ?thesis using True by simp
  next
    case False
    then show ?thesis using Cons.IH by (simp add: Let_def)
  qed
qed

lemma compactPage_char:
  assumes lt: "i + 1 < length pgs"
  shows "\<exists>k \<le> length (pgs ! (i + 1)).
           compactPage ht i pgs
             = (pgs[i + 1 := filter (\<lambda>b. \<not> hasBlockId b) (take k (pgs ! (i + 1))) @ drop k (pgs ! (i + 1))])
                 [i := pgs ! i @ filter hasBlockId (take k (pgs ! (i + 1)))]
         \<and> ((\<exists>b \<in> set (pgs ! i). pageBreak b) \<longrightarrow> k = 0)
         \<and> ((\<exists>b \<in> set (take k (pgs ! (i + 1))). \<not> pageBreak b) \<longrightarrow>
              sum_list (map ht (pgs ! i)) + contentHeight ht (take k (pgs ! (i + 1))) \<le> getPageContentMaxHeight)
         \<and> noContentAfterBreak (take k (pgs ! (i + 1)))"
proof -
  define cur where "cur = pgs ! i"
  define nxt where "nxt = pgs ! Suc i"
  define idx where "idx = scanNextPage ht 0 (sum_list (map ht cur)) False nxt"
  define k where "k = length idx"
  have same: "(pgs[Suc i := filter (\<lambda>b. \<not> hasBlockId b) (take 0 nxt) @ drop 0 nxt])
                 [i := cur @ filter hasBlockId (take 0 nxt)] = pgs"
    by (simp add: cur_def nxt_def)
  have idx: "idx = [0 ..< k]" unfolding k_def idx_def
    using scanNextPage_upt[of ht 0 "sum_list (map ht cur)" False nxt] by simp
  have kle: "k \<le> length nxt" unfolding k_def idx_def by (rule scanNextPage_length_le)
  have cp: "compactPage ht i pgs =
     (if nxt = [] then pgs
      else if \<exists>b \<in> set cur. pageBreak b then pgs
      else if sort idx \<noteq> []
              then moveBlocksToPreviousPage (Suc i) i (hd (sort idx)) (last (sort idx) + 1) pgs
              else pgs)"
    by (simp add: compactPage_def Let_def cur_def nxt_def idx_def)
  have goal: "\<exists>k \<le> length nxt.
           compactPage ht i pgs
             = (pgs[Suc i := filter (\<lambda>b. \<not> hasBlockId b) (take k nxt) @ drop k nxt])
                 [i := cur @ filter hasBlockId (take k nxt)]
         \<and> ((\<exists>b \<in> set cur. pageBreak b) \<longrightarrow> k = 0)
         \<and> ((\<exists>b \<in> set (take k nxt). \<not> pageBreak b) \<longrightarrow>
              sum_list (map ht cur) + contentHeight ht (take k nxt) \<le> getPageContentMaxHeight)
         \<and> noContentAfterBreak (take k nxt)"
  proof (cases "nxt = [] \<or> (\<exists>b \<in> set cur. pageBreak b) \<or> idx = []")
    case True
    then have "compactPage ht i pgs = pgs"
      unfolding cp by auto
    with same show ?thesis by (intro exI[of _ 0]) simp
  next
    case False
    then have ne: "nxt \<noteq> []" and nopb: "\<not> (\<exists>b \<in> set cur. pageBreak b)" and kpos: "k > 0"
      by (auto simp: k_def)
    have srt: "sort idx = [0 ..< k]" by (subst idx) (simp add: sort_upt)
    have hd0: "hd (sort idx) = 0" using kpos unfolding srt by simp
    have lst: "last (sort idx) + 1 = k" using kpos unfolding srt by simp
    have nonempty: "sort idx \<noteq> []" using kpos unfolding srt by simp
    have "compactPage ht i pgs = moveBlocksToPreviousPage (Suc i) i 0 k pgs"
      unfolding cp using ne nopb nonempty hd0 lst by simp
    also have "\<dots> = (pgs[Suc i := filter (\<lambda>b. \<not> hasBlockId b) (take k nxt) @ drop k nxt])
                 [i := cur @ filter hasBlockId (take k nxt)]"
      using lt ne kle by (simp add: moveBlocksToPreviousPage_def Let_def cur_def nxt_def)
    finally have eq: "compactPage ht i pgs = (pgs[Suc i := filter (\<lambda>b. \<not> hasBlockId b) (take k nxt) @ drop k nxt])
                 [i := cur @ filter hasBlockId (take k nxt)]" .
    have bud: "(\<exists>b \<in> set (take k nxt). \<not> pageBreak b) \<longrightarrow>
              sum_list (map ht cur) + contentHeight ht (take k nxt) \<le> getPageContentMaxHeight"
      unfolding k_def idx_def
      using scanNextPage_budget[of ht 0 "sum_list (map ht cur)" nxt] by blast
    have shape: "noContentAfterBreak (take k nxt)"
      unfolding k_def idx_def by (rule scanNextPage_pulled_shape)
    show ?thesis using eq kle nopb bud shape by (intro exI[of _ k]) simp
  qed
  then show ?thesis by (simp add: cur_def nxt_def)
qed

subsection \<open>The budget after a pass\<close>

lemma contentHeight_filter_le: "contentHeight ht (filter P xs) \<le> contentHeight ht xs"
  by (induction xs) auto

lemma nonPageBreak_filter_le:
  "length (nonPageBreakBlocks (filter P xs)) \<le> length (nonPageBreakBlocks xs)"
  by (induction xs) auto

lemma contentHeight_le_sum: "contentHeight ht xs \<le> sum_list (map ht xs)"
  by (induction xs) auto

lemma contentHeight_all_breaks:
  "\<forall>b \<in> set xs. pageBreak b \<Longrightarrow> contentHeight ht xs = 0 \<and> nonPageBreakBlocks xs = []"
  by (induction xs) auto

lemma budgetOrSingle_remainder:
  assumes "budgetOrSingle ht nxt"
  shows "budgetOrSingle ht (filter P (take k nxt) @ drop k nxt)"
proof -
  have split: "nxt = take k nxt @ drop k nxt" by simp
  have "contentHeight ht (filter P (take k nxt) @ drop k nxt)
        \<le> contentHeight ht (take k nxt) + contentHeight ht (drop k nxt)"
    using contentHeight_filter_le[of ht P "take k nxt"] by simp
  also have "\<dots> = contentHeight ht nxt"
    by (subst (3) split) (simp only: contentHeight_append)
  finally have h: "contentHeight ht (filter P (take k nxt) @ drop k nxt) \<le> contentHeight ht nxt" .
  have "length (nonPageBreakBlocks (filter P (take k nxt) @ drop k nxt))
        \<le> length (nonPageBreakBlocks (take k nxt)) + length (nonPageBreakBlocks (drop k nxt))"
    using nonPageBreak_filter_le[of P "take k nxt"] by simp
  also have "\<dots> = length (nonPageBreakBlocks nxt)"
    by (subst (3) split) (simp only: nonPageBreakBlocks_simps length_append)
  finally have n: "length (nonPageBreakBlocks (filter P (take k nxt) @ drop k nxt))
        \<le> length (nonPageBreakBlocks nxt)" .
  show ?thesis using assms h n unfolding budgetOrSingle_def by linarith
qed

lemma budgetOrSingle_receiver:
  assumes ok: "budgetOrSingle ht cur"
    and bud: "(\<exists>b \<in> set pulled. \<not> pageBreak b) \<longrightarrow>
              sum_list (map ht cur) + contentHeight ht pulled \<le> getPageContentMaxHeight"
  shows "budgetOrSingle ht (cur @ filter P pulled)"
proof (cases "\<exists>b \<in> set (filter P pulled). \<not> pageBreak b")
  case True
  then have "sum_list (map ht cur) + contentHeight ht pulled \<le> getPageContentMaxHeight"
    using bud by auto
  moreover have "contentHeight ht (cur @ filter P pulled) \<le> sum_list (map ht cur) + contentHeight ht pulled"
    using contentHeight_le_sum[of ht cur] contentHeight_filter_le[of ht P pulled] by simp
  ultimately show ?thesis unfolding budgetOrSingle_def by linarith
next
  case False
  then have "contentHeight ht (filter P pulled) = 0 \<and> nonPageBreakBlocks (filter P pulled) = []"
    by (intro contentHeight_all_breaks) blast
  then show ?thesis using ok unfolding budgetOrSingle_def by simp
qed

lemma compactPage_budgetOrSingle:
  assumes lt: "i + 1 < length pgs" and ok: "\<forall>p \<in> set pgs. budgetOrSingle ht p"
  shows "\<forall>p \<in> set (compactPage ht i pgs). budgetOrSingle ht p"
proof -
  obtain k where k: "compactPage ht i pgs
             = (pgs[i + 1 := filter (\<lambda>b. \<not> hasBlockId b) (take k (pgs ! (i + 1))) @ drop k (pgs ! (i + 1))])
                 [i := pgs ! i @ filter hasBlockId (take k (pgs ! (i + 1)))]"
     and bud: "(\<exists>b \<in> set (take k (pgs ! (i + 1))). \<not> pageBreak b) \<longrightarrow>
              sum_list (map ht (pgs ! i)) + contentHeight ht (take k (pgs ! (i + 1))) \<le> getPageContentMaxHeight"
    using compactPage_char[OF lt, of ht] by blast
  have oki: "budgetOrSingle ht (pgs ! i)" and okn: "budgetOrSingle ht (pgs ! (i + 1))"
    using ok lt by simp_all
  have a: "budgetOrSingle ht (filter (\<lambda>b. \<not> hasBlockId b) (take k (pgs ! (i + 1))) @ drop k (pgs ! (i + 1)))"
    by (rule budgetOrSingle_remainder[OF okn])
  have b: "budgetOrSingle ht (pgs ! i @ filter hasBlockId (take k (pgs ! (i + 1))))"
    by (rule budgetOrSingle_receiver[OF oki bud])
  show ?thesis
  proof
    fix p assume "p \<in> set (compactPage ht i pgs)"
    then have "p \<in> insert (pgs ! i @ filter hasBlockId (take k (pgs ! (i + 1))))
                 (insert (filter (\<lambda>b. \<not> hasBlockId b) (take k (pgs ! (i + 1))) @ drop k (pgs ! (i + 1))) (set pgs))"
      unfolding k by (meson set_update_subset_insert subsetD insert_mono)
    then show "budgetOrSingle ht p" using a b ok by auto
  qed
qed

lemma reverseFrom_budgetOrSingle:
  "\<forall>p \<in> set pgs. budgetOrSingle ht p \<Longrightarrow> \<forall>p \<in> set (reverseFrom ht i pgs). budgetOrSingle ht p"
proof (induction ht i pgs rule: reverseFrom.induct)
  case (1 ht pageIndex pgs)
  show ?case
  proof (cases "pageIndex + 1 < length pgs")
    case True
    have "\<forall>p \<in> set (compactPage ht pageIndex pgs). budgetOrSingle ht p"
      by (rule compactPage_budgetOrSingle[OF True "1.prems"])
    from "1.IH"[OF True this] show ?thesis using True
      by (simp add: reverseFrom.simps[of ht pageIndex pgs])
  next
    case False
    then show ?thesis using "1.prems" by (simp add: reverseFrom.simps[of ht pageIndex pgs])
  qed
qed

lemma set_removeFrom: "set (removeFrom n pgs) \<subseteq> set pgs"
proof (induction n arbitrary: pgs)
  case 0
  then show ?case by simp
next
  case (Suc n)
  have "set (take n pgs @ drop (Suc n) pgs) \<subseteq> set pgs"
    using set_take_subset[of n pgs] set_drop_subset[of "Suc n" pgs] by auto
  then show ?case using Suc.IH[of pgs] Suc.IH[of "take n pgs @ drop (Suc n) pgs"]
    by (auto simp del: set_append)
qed

lemma forward_budgetOrSingle:
  assumes "forwardScan ht 0 out = None"
  shows "\<forall>p \<in> set out. budgetOrSingle ht p"
proof
  fix p assume "p \<in> set out"
  then obtain j where j: "j < length out" "p = out ! j" by (auto simp: in_set_conv_nth)
  have "\<not> needsSplit ht p" using forwardScan_None[OF assms _ j(1)] j(2) by simp
  then show "budgetOrSingle ht p"
    using contentHeight_le_calculate[of ht p]
    unfolding needsSplit_def budgetOrSingle_def by linarith
qed

lemma handlePageOverflow_budgetOrSingle:
  assumes "handlePageOverflow ht cur pgs = Some out"
  shows "\<forall>p \<in> set out. budgetOrSingle ht p"
proof (cases "pgs = []")
  case True
  then show ?thesis using assms by (simp add: handlePageOverflow_def)
next
  case False
  then obtain p1 where p1: "forwardLoop ht pgs = Some p1"
     and out: "out = removeEmptyPages (handleReverseCompaction ht cur p1)"
    using assms by (auto simp: handlePageOverflow_def handleForwardOverflow_def split: option.splits)
  have "\<forall>p \<in> set p1. budgetOrSingle ht p" using forward_budgetOrSingle[OF forwardLoop_fixpoint[OF p1]] .
  then have "\<forall>p \<in> set (handleReverseCompaction ht cur p1). budgetOrSingle ht p"
    using reverseFrom_budgetOrSingle by (simp add: handleReverseCompaction_def)
  then show ?thesis unfolding out removeEmptyPages_def using set_removeFrom by (auto split: if_splits)
qed

text \<open>
  Claim C1, as the code has it. After a completed pass of \<^verbatim>\<open>handlePageOverflow\<close>
  (forward overflow, reverse compaction, pruning) every page that holds more than one
  content block has a content height within the budget of 931. A page whose only content
  block is taller than the budget is left as it is.
\<close>

theorem c1_budget_after_pass:
  assumes "handlePageOverflow ht currentPageIndex pgs = Some out"
    and "p \<in> set out"
    and "1 < length (nonPageBreakBlocks p)"
  shows "contentHeight ht p \<le> getPageContentMaxHeight"
  using handlePageOverflow_budgetOrSingle[OF assms(1)] assms(2,3)
  by (simp add: budgetOrSingle_def)

theorem c1_budget_after_pass_witness:
  "handlePageOverflow (heightTable [(''a'', 300), (''b'', 300), (''c'', 400)]) 0
     [[contentBlock ''a'', contentBlock ''b'', contentBlock ''c'']]
     = Some [[contentBlock ''a'', contentBlock ''b''], [contentBlock ''c'']]
   \<and> [contentBlock ''a'', contentBlock ''b'']
       \<in> set [[contentBlock ''a'', contentBlock ''b''], [contentBlock ''c'']]
   \<and> 1 < length (nonPageBreakBlocks [contentBlock ''a'', contentBlock ''b''])
   \<and> contentHeight (heightTable [(''a'', 300), (''b'', 300), (''c'', 400)])
        [contentBlock ''a'', contentBlock ''b''] \<le> getPageContentMaxHeight"
proof -
  have run: "handlePageOverflow (heightTable [(''a'', 300), (''b'', 300), (''c'', 400)]) 0
     [[contentBlock ''a'', contentBlock ''b'', contentBlock ''c'']]
     = Some [[contentBlock ''a'', contentBlock ''b''], [contentBlock ''c'']]"
    by (simp add: evalFlow)
  have mem: "[contentBlock ''a'', contentBlock ''b'']
       \<in> set [[contentBlock ''a'', contentBlock ''b''], [contentBlock ''c'']]"
    by simp
  have two: "1 < length (nonPageBreakBlocks [contentBlock ''a'', contentBlock ''b''])"
    by (simp add: contentBlock_def)
  from c1_budget_after_pass[OF run mem two] run mem two show ?thesis by blast
qed

text \<open>
  Claim C1 as stated fails: a page whose single block is 1000 high is returned by the
  pass unchanged and over the budget.
\<close>

theorem c1_budget_counterexample:
  "handlePageOverflow (heightTable [(''a'', 1000)]) 0 [[contentBlock ''a'']]
     = Some [[contentBlock ''a'']]
   \<and> \<not> contentHeight (heightTable [(''a'', 1000)]) [contentBlock ''a'']
         \<le> getPageContentMaxHeight"
  by (simp add: evalFlow)

subsection \<open>A forward overflow that never ends\<close>

lemma forwardLoop_never_returns:
  assumes step: "\<And>pgs. I pgs \<Longrightarrow> \<exists>pgs'. forwardScan ht 0 pgs = Some pgs' \<and> I pgs'"
    and start: "I pgs"
  shows "forwardLoop ht pgs = None"
proof (rule ccontr)
  assume "forwardLoop ht pgs \<noteq> None"
  then obtain out where out: "forwardLoop ht pgs = Some out" by blast
  have "\<not> I pgs" if "forwardLoop ht' pgs = Some out" "ht' = ht" for ht'
    using that
  proof (induction rule: forwardLoop.raw_induct[rotated 1, consumes 1])
    case (1 f ht' pgs out)
    show ?case
    proof
      assume "I pgs"
      then obtain pgs' where s: "forwardScan ht 0 pgs = Some pgs'" and i: "I pgs'"
        using step by blast
      with "1.hyps" "1.prems" have "f ht' pgs' = Some out" by simp
      from "1.IH"[OF this "1.prems"] i show False by simp
    qed
  qed
  with out start show False by blast
qed

lemma forwardScan_skip_empty:
  assumes "i \<le> k"
  shows "forwardScan ht i (replicate k [] @ p # rest) = forwardScan ht k (replicate k [] @ p # rest)"
  using assms
proof (induction "k - i" arbitrary: i)
  case 0
  then show ?case by simp
next
  case (Suc d)
  then have lt: "i < k" by simp
  then have "(replicate k [] @ p # rest) ! i = []" by (simp add: nth_append)
  then have "forwardScan ht i (replicate k [] @ p # rest) = forwardScan ht (i + 1) (replicate k [] @ p # rest)"
    using lt by (subst forwardScan.simps) (simp add: needsSplit_def)
  also have "\<dots> = forwardScan ht k (replicate k [] @ p # rest)"
    using Suc lt by (intro Suc.hyps(1)) auto
  finally show ?case .
qed

lemma forwardScan_oversized_head:
  fixes a b :: element
  assumes a: "\<not> pageBreak a" "hasBlockId a" "ht a > getPageContentMaxHeight"
    and b: "\<not> pageBreak b" "hasBlockId b"
  shows "forwardScan ht 0 (replicate k [] @ [[a, b]]) = Some (replicate (Suc k) [] @ [[a, b]])"
proof -
  let ?pgs = "replicate k [] @ [[a, b]]"
  have "forwardScan ht 0 ?pgs = forwardScan ht k ?pgs"
    by (rule forwardScan_skip_empty) simp
  also have "\<dots> = Some (moveBlocksToNextPage k (k + 1) 0 (getOrCreateNextPage k ?pgs))"
    using a b by (subst forwardScan.simps) (simp add: needsSplit_def nth_append)
  also have "getOrCreateNextPage k ?pgs = replicate k [] @ [[a, b], []]"
    by (simp add: getOrCreateNextPage_def)
  also have "moveBlocksToNextPage k (k + 1) 0 (replicate k [] @ [[a, b], []])
             = replicate k [] @ [[], [a, b]]"
    using a b by (simp add: moveBlocksToNextPage_def Let_def nth_append list_update_append)
  also have "replicate k [] @ [[], [a, b]] = replicate (Suc k) [] @ [[a, b]]"
    by (simp add: replicate_append_same)
  finally show ?thesis .
qed

lemma forwardLoop_oversized_head:
  fixes a b :: element
  assumes a: "\<not> pageBreak a" "hasBlockId a" "ht a > getPageContentMaxHeight"
    and b: "\<not> pageBreak b" "hasBlockId b"
  shows "forwardLoop ht [[a, b]] = None"
proof (rule forwardLoop_never_returns[where I = "\<lambda>pgs. \<exists>k. pgs = replicate k [] @ [[a, b]]"])
  show "\<exists>k. [[a, b]] = replicate k [] @ [[a, b]]" by (rule exI[of _ 0]) simp
next
  fix pgs assume "\<exists>k. pgs = replicate k [] @ [[a, b]]"
  then obtain k where "pgs = replicate k [] @ [[a, b]]" by blast
  then have "forwardScan ht 0 pgs = Some (replicate (Suc k) [] @ [[a, b]])"
    using forwardScan_oversized_head[of a ht b k] a b by simp
  then show "\<exists>pgs'. forwardScan ht 0 pgs = Some pgs' \<and> (\<exists>k. pgs' = replicate k [] @ [[a, b]])"
    by blast
qed

text \<open>
  Claim C2 against the code. A page holds a block 1000 high followed by a block 10 high.
  It has two content blocks, so the guard lets the split through; the first block alone
  exceeds the budget, so the split index is 0 and every block moves: the source page is
  left with no block at all. The next page then is in the same state, and the
  \<^verbatim>\<open>while\<close> loop of forward overflow never ends. A page that starts with a page
  break loses its content in the same way: the split index is 1, both content blocks move,
  and forward overflow returns with only the page break left on the source page.
\<close>

theorem c2_source_page_emptied:
  "forwardScan (heightTable [(''a'', 1000), (''b'', 10)]) 0 [[contentBlock ''a'', contentBlock ''b'']]
     = Some [[], [contentBlock ''a'', contentBlock ''b'']]
   \<and> handleForwardOverflow (heightTable [(''a'', 1000), (''b'', 10)])
        [[contentBlock ''a'', contentBlock ''b'']] = None
   \<and> handleForwardOverflow (heightTable [(''a'', 100), (''b'', 100)])
        [[pageBreakElement ''p'', contentBlock ''a'', contentBlock ''b'']]
     = Some [[pageBreakElement ''p''], [contentBlock ''a'', contentBlock ''b'']]"
proof -
  have 1: "forwardScan (heightTable [(''a'', 1000), (''b'', 10)]) 0 [[contentBlock ''a'', contentBlock ''b'']]
     = Some [[], [contentBlock ''a'', contentBlock ''b'']]"
    by (simp add: forwardScan.simps needsSplit_def getPageContentMaxHeight_def nonPageBreakBlocks_def
       getOrCreateNextPage_def moveBlocksToNextPage_def hasBlockId_def contentBlock_def heightTable_def)
  have 2: "forwardLoop (heightTable [(''a'', 1000), (''b'', 10)])
        [[contentBlock ''a'', contentBlock ''b'']] = None"
    by (rule forwardLoop_oversized_head)
       (simp_all add: contentBlock_def hasBlockId_def heightTable_def getPageContentMaxHeight_def)
  have 3: "handleForwardOverflow (heightTable [(''a'', 100), (''b'', 100)])
        [[pageBreakElement ''p'', contentBlock ''a'', contentBlock ''b'']]
     = Some [[pageBreakElement ''p''], [contentBlock ''a'', contentBlock ''b'']]"
    by (simp add: evalFlow)
  show ?thesis using 1 2 3 by (simp add: handleForwardOverflow_def)
qed

subsection \<open>The split point and the move\<close>

lemma findSplitIndex_char:
  "findSplitIndex ht i acc bs = Some s \<Longrightarrow> acc \<le> getPageContentMaxHeight \<Longrightarrow>
   \<exists>m. s = i + m \<and> m < length bs
     \<and> acc + contentHeight ht (take m bs) \<le> getPageContentMaxHeight
     \<and> ((\<not> pageBreak (bs ! m) \<and> (\<forall>b \<in> set (take m bs). \<not> pageBreak b)
          \<and> acc + contentHeight ht (take (Suc m) bs) > getPageContentMaxHeight)
        \<or> (0 < m \<and> pageBreak (bs ! (m - 1)) \<and> (\<forall>b \<in> set (take (m - 1) bs). \<not> pageBreak b)))"
proof (induction bs arbitrary: i acc)
  case Nil
  then show ?case by simp
next
  case (Cons b bs)
  show ?case
  proof (cases "pageBreak b")
    case True
    show ?thesis
    proof (cases "bs = []")
      case True
      with \<open>pageBreak b\<close> Cons.prems show ?thesis by simp
    next
      case False
      with True Cons.prems have "s = i + 1" by simp
      with True False Cons.prems(2) show ?thesis
        by (intro exI[of _ 1]) (cases bs, auto)
    qed
  next
    case nb: False
    show ?thesis
    proof (cases "acc + ht b > getPageContentMaxHeight")
      case True
      with nb Cons.prems have "s = i" by simp
      with nb True Cons.prems(2) show ?thesis by (intro exI[of _ 0]) simp
    next
      case False
      with nb Cons.prems have rec: "findSplitIndex ht (i + 1) (acc + ht b) bs = Some s" by simp
      from False have le: "acc + ht b \<le> getPageContentMaxHeight" by simp
      from Cons.IH[OF rec le] obtain m where m: "s = i + 1 + m" "m < length bs"
        "acc + ht b + contentHeight ht (take m bs) \<le> getPageContentMaxHeight"
        "(\<not> pageBreak (bs ! m) \<and> (\<forall>b \<in> set (take m bs). \<not> pageBreak b)
          \<and> acc + ht b + contentHeight ht (take (Suc m) bs) > getPageContentMaxHeight)
        \<or> (0 < m \<and> pageBreak (bs ! (m - 1)) \<and> (\<forall>b \<in> set (take (m - 1) bs). \<not> pageBreak b))"
        by blast
      from m(4) have "(\<not> pageBreak ((b # bs) ! Suc m) \<and> (\<forall>c \<in> set (take (Suc m) (b # bs)). \<not> pageBreak c)
          \<and> acc + contentHeight ht (take (Suc (Suc m)) (b # bs)) > getPageContentMaxHeight)
        \<or> (0 < Suc m \<and> pageBreak ((b # bs) ! (Suc m - 1)) \<and> (\<forall>c \<in> set (take (Suc m - 1) (b # bs)). \<not> pageBreak c))"
      proof
        assume "\<not> pageBreak (bs ! m) \<and> (\<forall>b \<in> set (take m bs). \<not> pageBreak b)
          \<and> acc + ht b + contentHeight ht (take (Suc m) bs) > getPageContentMaxHeight"
        then show ?thesis using nb by simp
      next
        assume r: "0 < m \<and> pageBreak (bs ! (m - 1)) \<and> (\<forall>b \<in> set (take (m - 1) bs). \<not> pageBreak b)"
        then obtain m' where m': "m = Suc m'" by (cases m) auto
        with r nb show ?thesis by simp
      qed
      with m(1,2,3) nb show ?thesis by (intro exI[of _ "Suc m"]) simp
    qed
  qed
qed

lemma forwardScan_first:
  assumes "pageIndex < length pgs"
    and "\<forall>j < pageIndex. \<not> needsSplit ht (pgs ! j)"
    and "i \<le> pageIndex"
  shows "forwardScan ht i pgs = forwardScan ht pageIndex pgs"
  using assms(3)
proof (induction "pageIndex - i" arbitrary: i)
  case 0
  then show ?case by simp
next
  case (Suc d)
  then have lt: "i < pageIndex" by simp
  then have "\<not> needsSplit ht (pgs ! i)" using assms(2) by simp
  then have "forwardScan ht i pgs = forwardScan ht (i + 1) pgs"
    using lt assms(1) by (subst forwardScan.simps) simp
  also have "\<dots> = forwardScan ht pageIndex pgs"
    using Suc lt by (intro Suc.hyps(1)) auto
  finally show ?case .
qed

lemma moveBlocksToNextPage_result:
  assumes lt: "i < length pgs" and s: "s < length (pgs ! i)"
  shows "moveBlocksToNextPage i (i + 1) s (getOrCreateNextPage i pgs)
         = (if i + 1 < length pgs
            then pgs[i := take s (pgs ! i) @ filter (\<lambda>b. \<not> hasBlockId b) (drop s (pgs ! i)),
                     i + 1 := filter hasBlockId (drop s (pgs ! i)) @ pgs ! (i + 1)]
            else pgs[i := take s (pgs ! i) @ filter (\<lambda>b. \<not> hasBlockId b) (drop s (pgs ! i))]
                 @ [filter hasBlockId (drop s (pgs ! i))])"
proof (cases "i + 1 < length pgs")
  case True
  then show ?thesis using lt s
    by (simp add: getOrCreateNextPage_def moveBlocksToNextPage_def Let_def)
next
  case False
  then have len: "length pgs = i + 1" using lt by simp
  then have g: "getOrCreateNextPage i pgs = pgs @ [[]]"
    by (simp add: getOrCreateNextPage_def)
  show ?thesis unfolding g using False lt s len
    by (simp add: moveBlocksToNextPage_def Let_def nth_append list_update_append)
qed

text \<open>
  Claim C3, as the code has it. A page is over the budget and holds more than one content
  block. Then the scan finds a split index \<open>s\<close> inside the page, the blocks before
  it fit the budget, and \<open>s\<close> is whichever the scan meets first: the first content
  block whose height takes the running total over the budget (no page break before it),
  or the position right after the first page break, which then is not the page's last
  element. When the page loop of a round stands at the page, the blocks from \<open>s\<close>
  on that carry an id leave the page and stand, in their order, at the head of the next
  page, which is created at the end when there is none; a block without an id stays on
  the page, and no other page changes. The loop of a round that starts at the first page
  gets to the page when no page before it passes the test of the code: height over the
  budget, where a page break that is not the last element counts 1931, and more than one
  content block. The budget is 931, and a block carries an id when the attribute is there
  and not empty.
\<close>

theorem c3_split_point_and_move:
  assumes lt: "pageIndex < length pgs"
    and over: "contentHeight ht (pgs ! pageIndex) > getPageContentMaxHeight"
    and many: "1 < length (nonPageBreakBlocks (pgs ! pageIndex))"
  shows "\<exists>s. findSplitIndex ht 0 0 (pgs ! pageIndex) = Some s
           \<and> s < length (pgs ! pageIndex)
           \<and> contentHeight ht (take s (pgs ! pageIndex)) \<le> getPageContentMaxHeight
           \<and> ((\<not> pageBreak (pgs ! pageIndex ! s)
                \<and> (\<forall>b \<in> set (take s (pgs ! pageIndex)). \<not> pageBreak b)
                \<and> contentHeight ht (take (Suc s) (pgs ! pageIndex)) > getPageContentMaxHeight)
              \<or> (0 < s \<and> pageBreak (pgs ! pageIndex ! (s - 1))
                  \<and> (\<forall>b \<in> set (take (s - 1) (pgs ! pageIndex)). \<not> pageBreak b)))
           \<and> forwardScan ht pageIndex pgs
               = Some (if pageIndex + 1 < length pgs
                       then pgs[pageIndex := take s (pgs ! pageIndex)
                                  @ filter (\<lambda>b. \<not> hasBlockId b) (drop s (pgs ! pageIndex)),
                                pageIndex + 1 := filter hasBlockId (drop s (pgs ! pageIndex))
                                  @ pgs ! (pageIndex + 1)]
                       else pgs[pageIndex := take s (pgs ! pageIndex)
                                  @ filter (\<lambda>b. \<not> hasBlockId b) (drop s (pgs ! pageIndex))]
                            @ [filter hasBlockId (drop s (pgs ! pageIndex))])
           \<and> ((\<forall>j < pageIndex.
                  \<not> (calculatePageBlocksHeight ht (pgs ! j) > getPageContentMaxHeight
                     \<and> 1 < length (nonPageBreakBlocks (pgs ! j))))
                \<longrightarrow> forwardScan ht 0 pgs = forwardScan ht pageIndex pgs)
           \<and> (\<forall>b. hasBlockId b = (blockId b \<noteq> None \<and> blockId b \<noteq> Some []))
           \<and> getPageContentMaxHeight = 931"
proof -
  have ns: "needsSplit ht (pgs ! pageIndex)"
    using over many contentHeight_le_calculate[of ht "pgs ! pageIndex"]
    unfolding needsSplit_def by linarith
  then obtain s where s: "findSplitIndex ht 0 0 (pgs ! pageIndex) = Some s"
      "s < length (pgs ! pageIndex)"
    using findSplitIndex_found[of 0 ht "pgs ! pageIndex" 0] by (auto simp: needsSplit_def)
  from findSplitIndex_char[OF s(1)] obtain m where m: "s = 0 + m"
    "0 + contentHeight ht (take m (pgs ! pageIndex)) \<le> getPageContentMaxHeight"
    "(\<not> pageBreak (pgs ! pageIndex ! m) \<and> (\<forall>b \<in> set (take m (pgs ! pageIndex)). \<not> pageBreak b)
          \<and> 0 + contentHeight ht (take (Suc m) (pgs ! pageIndex)) > getPageContentMaxHeight)
        \<or> (0 < m \<and> pageBreak (pgs ! pageIndex ! (m - 1))
            \<and> (\<forall>b \<in> set (take (m - 1) (pgs ! pageIndex)). \<not> pageBreak b))"
    by auto
  have "forwardScan ht pageIndex pgs
        = Some (moveBlocksToNextPage pageIndex (pageIndex + 1) s
                  (getOrCreateNextPage pageIndex pgs))"
    using lt ns s by (subst forwardScan.simps) simp
  also have "moveBlocksToNextPage pageIndex (pageIndex + 1) s (getOrCreateNextPage pageIndex pgs)
      = (if pageIndex + 1 < length pgs
                       then pgs[pageIndex := take s (pgs ! pageIndex)
                                  @ filter (\<lambda>b. \<not> hasBlockId b) (drop s (pgs ! pageIndex)),
                                pageIndex + 1 := filter hasBlockId (drop s (pgs ! pageIndex))
                                  @ pgs ! (pageIndex + 1)]
                       else pgs[pageIndex := take s (pgs ! pageIndex)
                                  @ filter (\<lambda>b. \<not> hasBlockId b) (drop s (pgs ! pageIndex))]
                            @ [filter hasBlockId (drop s (pgs ! pageIndex))])"
    by (rule moveBlocksToNextPage_result[OF lt s(2)])
  finally have mv: "forwardScan ht pageIndex pgs
      = Some (if pageIndex + 1 < length pgs
                       then pgs[pageIndex := take s (pgs ! pageIndex)
                                  @ filter (\<lambda>b. \<not> hasBlockId b) (drop s (pgs ! pageIndex)),
                                pageIndex + 1 := filter hasBlockId (drop s (pgs ! pageIndex))
                                  @ pgs ! (pageIndex + 1)]
                       else pgs[pageIndex := take s (pgs ! pageIndex)
                                  @ filter (\<lambda>b. \<not> hasBlockId b) (drop s (pgs ! pageIndex))]
                            @ [filter hasBlockId (drop s (pgs ! pageIndex))])" .
  have reach: "(\<forall>j < pageIndex.
                  \<not> (calculatePageBlocksHeight ht (pgs ! j) > getPageContentMaxHeight
                     \<and> 1 < length (nonPageBreakBlocks (pgs ! j))))
                \<longrightarrow> forwardScan ht 0 pgs = forwardScan ht pageIndex pgs"
    using forwardScan_first[OF lt, of ht 0] by (simp add: needsSplit_def)
  have ids: "\<forall>b. hasBlockId b = (blockId b \<noteq> None \<and> blockId b \<noteq> Some [])"
    by (auto simp: hasBlockId_def split: option.splits)
  have budget: "getPageContentMaxHeight = 931" by (simp add: getPageContentMaxHeight_def)
  from m have sm: "m = s" by simp
  have "findSplitIndex ht 0 0 (pgs ! pageIndex) = Some s
           \<and> s < length (pgs ! pageIndex)
           \<and> contentHeight ht (take s (pgs ! pageIndex)) \<le> getPageContentMaxHeight
           \<and> ((\<not> pageBreak (pgs ! pageIndex ! s)
                \<and> (\<forall>b \<in> set (take s (pgs ! pageIndex)). \<not> pageBreak b)
                \<and> contentHeight ht (take (Suc s) (pgs ! pageIndex)) > getPageContentMaxHeight)
              \<or> (0 < s \<and> pageBreak (pgs ! pageIndex ! (s - 1))
                  \<and> (\<forall>b \<in> set (take (s - 1) (pgs ! pageIndex)). \<not> pageBreak b)))"
    using s m(2,3) unfolding sm by simp
  with mv reach ids budget show ?thesis by blast
qed

theorem c3_split_point_and_move_witness:
  "findSplitIndex (heightTable [(''a'', 300), (''b'', 300), (''c'', 400)]) 0 0
     [contentBlock ''a'', contentBlock ''b'', contentBlock ''c''] = Some 2
   \<and> forwardScan (heightTable [(''a'', 300), (''b'', 300), (''c'', 400)]) 0
       [[contentBlock ''a'', contentBlock ''b'', contentBlock ''c'']]
     = Some [[contentBlock ''a'', contentBlock ''b''], [contentBlock ''c'']]"
proof -
  let ?ht = "heightTable [(''a'', 300), (''b'', 300), (''c'', 400)]"
  let ?pgs = "[[contentBlock ''a'', contentBlock ''b'', contentBlock ''c'']]"
  have h1: "0 < length ?pgs" by simp
  have h3: "contentHeight ?ht (?pgs ! 0) > getPageContentMaxHeight"
    by (simp add: heightTable_def contentBlock_def getPageContentMaxHeight_def)
  have h4: "1 < length (nonPageBreakBlocks (?pgs ! 0))"
    by (simp add: contentBlock_def)
  have split: "findSplitIndex ?ht 0 0 (?pgs ! 0) = Some 2"
    by (simp add: heightTable_def contentBlock_def getPageContentMaxHeight_def)
  from c3_split_point_and_move[OF h1 h3 h4] obtain s where
    s: "findSplitIndex ?ht 0 0 (?pgs ! 0) = Some s"
    and mv: "forwardScan ?ht 0 ?pgs
             = Some (if 0 + 1 < length ?pgs
                     then ?pgs[0 := take s (?pgs ! 0)
                                 @ filter (\<lambda>b. \<not> hasBlockId b) (drop s (?pgs ! 0)),
                               0 + 1 := filter hasBlockId (drop s (?pgs ! 0)) @ ?pgs ! (0 + 1)]
                     else ?pgs[0 := take s (?pgs ! 0)
                                 @ filter (\<lambda>b. \<not> hasBlockId b) (drop s (?pgs ! 0))]
                          @ [filter hasBlockId (drop s (?pgs ! 0))])"
    by blast
  from s split have "s = 2" by simp
  with mv split show ?thesis by (simp add: contentBlock_def hasBlockId_def)
qed

text \<open>
  Claim C3 as stated fails twice. A page whose only block is 1000 high is over the budget,
  and forward overflow moves nothing. And on a page of two blocks of height 500, the
  second without an id, the split index is 1, a next page is created, and the block at
  the split index stays where it is: \<^verbatim>\<open>moveBlocksToNextPage\<close> passes over a block
  without an id.
\<close>

theorem c3_not_every_block_moves_counterexample:
  "contentHeight (heightTable [(''a'', 1000)]) [contentBlock ''a''] > getPageContentMaxHeight
   \<and> forwardScan (heightTable [(''a'', 1000)]) 0 [[contentBlock ''a'']] = None
   \<and> contentHeight (\<lambda>el. 500)
        [contentBlock ''a'', \<lparr>blockId = None, pageBreak = False, kind = Paragraph, childNodes = []\<rparr>]
       > getPageContentMaxHeight
   \<and> findSplitIndex (\<lambda>el. 500) 0 0
        [contentBlock ''a'', \<lparr>blockId = None, pageBreak = False, kind = Paragraph, childNodes = []\<rparr>]
       = Some 1
   \<and> forwardScan (\<lambda>el. 500) 0
        [[contentBlock ''a'', \<lparr>blockId = None, pageBreak = False, kind = Paragraph, childNodes = []\<rparr>]]
       = Some [[contentBlock ''a'',
                \<lparr>blockId = None, pageBreak = False, kind = Paragraph, childNodes = []\<rparr>], []]"
  by (simp add: forwardScan.simps needsSplit_def getPageContentMaxHeight_def
      heightTable_def contentBlock_def getOrCreateNextPage_def moveBlocksToNextPage_def
      hasBlockId_def)

subsection \<open>Page breaks in reverse compaction\<close>

lemma compactPage_pages:
  assumes lt: "i + 1 < length pgs"
  shows "length (compactPage ht i pgs) = length pgs
       \<and> (\<forall>q. q \<noteq> i \<and> q \<noteq> i + 1 \<longrightarrow> compactPage ht i pgs ! q = pgs ! q)
       \<and> subseq (compactPage ht i pgs ! (i + 1)) (pgs ! (i + 1))
       \<and> (compactPage ht i pgs ! i = pgs ! i \<or> noContentAfterBreak (compactPage ht i pgs ! i))"
proof -
  let ?nxt = "pgs ! (i + 1)"
  obtain k where kle: "k \<le> length ?nxt"
    and eq: "compactPage ht i pgs
             = (pgs[i + 1 := filter (\<lambda>b. \<not> hasBlockId b) (take k ?nxt) @ drop k ?nxt])
                 [i := pgs ! i @ filter hasBlockId (take k ?nxt)]"
    and skip: "(\<exists>b \<in> set (pgs ! i). pageBreak b) \<longrightarrow> k = 0"
    and shape: "noContentAfterBreak (take k ?nxt)"
    using compactPage_char[OF lt, of ht] by blast
  have a: "compactPage ht i pgs ! i = pgs ! i @ filter hasBlockId (take k ?nxt)"
    unfolding eq using lt by simp
  have b: "compactPage ht i pgs ! (i + 1)
           = filter (\<lambda>b. \<not> hasBlockId b) (take k ?nxt) @ drop k ?nxt"
    unfolding eq using lt by simp
  have "subseq (filter (\<lambda>b. \<not> hasBlockId b) (take k ?nxt) @ drop k ?nxt) (take k ?nxt @ drop k ?nxt)"
    by (intro list_emb_append_mono subseq_filter_left subseq_order.order_refl)
  then have sub: "subseq (compactPage ht i pgs ! (i + 1)) ?nxt" unfolding b by simp
  have cur: "compactPage ht i pgs ! i = pgs ! i \<or> noContentAfterBreak (compactPage ht i pgs ! i)"
  proof (cases "\<exists>b \<in> set (pgs ! i). pageBreak b")
    case True
    then have "k = 0" using skip by simp
    then show ?thesis unfolding a by simp
  next
    case False
    have "noContentAfterBreak (filter hasBlockId (take k ?nxt))"
      using shape by (rule noContentAfterBreak_filter)
    then show ?thesis unfolding a using False by (simp add: noContentAfterBreak_append_content)
  qed
  have others: "\<forall>q. q \<noteq> i \<and> q \<noteq> i + 1 \<longrightarrow> compactPage ht i pgs ! q = pgs ! q"
    unfolding eq by simp
  have len: "length (compactPage ht i pgs) = length pgs" unfolding eq by simp
  show ?thesis using len others sub cur by blast
qed

lemma reverseFrom_authority:
  assumes "length cur = length pgs0"
    and "\<forall>q. i < q \<and> q < length pgs0 \<longrightarrow> cur ! q = pgs0 ! q"
    and "\<forall>q. q \<le> i \<and> q < length pgs0 \<longrightarrow> noContentAfterBreak (cur ! q) \<or> subseq (cur ! q) (pgs0 ! q)"
    and "i < length pgs0 \<longrightarrow> subseq (cur ! i) (pgs0 ! i)"
  shows "length (reverseFrom ht i cur) = length pgs0
       \<and> (\<forall>q < length pgs0. noContentAfterBreak (reverseFrom ht i cur ! q)
                              \<or> subseq (reverseFrom ht i cur ! q) (pgs0 ! q))"
  using assms
proof (induction ht i cur rule: reverseFrom.induct)
  case (1 ht pageIndex pgs)
  show ?case
  proof (cases "pageIndex + 1 < length pgs")
    case False
    then have r: "reverseFrom ht pageIndex pgs = pgs" by (simp add: reverseFrom.simps[of ht pageIndex pgs])
    have "noContentAfterBreak (pgs ! q) \<or> subseq (pgs ! q) (pgs0 ! q)" if "q < length pgs0" for q
    proof (cases "q \<le> pageIndex")
      case True
      then show ?thesis using "1.prems"(3) that by blast
    next
      case False
      then show ?thesis using "1.prems"(2) that by simp
    qed
    then show ?thesis unfolding r using "1.prems"(1) by blast
  next
    case True
    let ?c = "compactPage ht pageIndex pgs"
    from compactPage_pages[OF True, of ht]
    have len: "length ?c = length pgs"
      and others: "\<forall>q. q \<noteq> pageIndex \<and> q \<noteq> pageIndex + 1 \<longrightarrow> ?c ! q = pgs ! q"
      and sub: "subseq (?c ! (pageIndex + 1)) (pgs ! (pageIndex + 1))"
      and cur: "?c ! pageIndex = pgs ! pageIndex \<or> noContentAfterBreak (?c ! pageIndex)"
      by blast+
    have nxt0: "pgs ! (pageIndex + 1) = pgs0 ! (pageIndex + 1)"
      using "1.prems"(1,2) True by simp
    have p1: "length ?c = length pgs0" using len "1.prems"(1) by simp
    have p2: "\<forall>q. pageIndex + 1 < q \<and> q < length pgs0 \<longrightarrow> ?c ! q = pgs0 ! q"
      using others "1.prems"(2) by simp
    have p3: "\<forall>q. q \<le> pageIndex + 1 \<and> q < length pgs0 \<longrightarrow>
                noContentAfterBreak (?c ! q) \<or> subseq (?c ! q) (pgs0 ! q)"
    proof (intro allI impI)
      fix q assume q: "q \<le> pageIndex + 1 \<and> q < length pgs0"
      consider "q < pageIndex" | "q = pageIndex" | "q = pageIndex + 1" using q by linarith
      then show "noContentAfterBreak (?c ! q) \<or> subseq (?c ! q) (pgs0 ! q)"
      proof cases
        case 1
        then have "?c ! q = pgs ! q" using others by simp
        then show ?thesis using "1.prems"(3) 1 q by simp
      next
        case 2
        then show ?thesis using cur "1.prems"(4) q by auto
      next
        case 3
        then show ?thesis using sub nxt0 by simp
      qed
    qed
    have p4: "pageIndex + 1 < length pgs0 \<longrightarrow> subseq (?c ! (pageIndex + 1)) (pgs0 ! (pageIndex + 1))"
      using sub nxt0 by simp
    from "1.IH"[OF True p1 p2 p3 p4] show ?thesis
      using True by (simp add: reverseFrom.simps[of ht pageIndex pgs])
  qed
qed

lemma handleReverseCompaction_authority:
  "length (handleReverseCompaction ht start pgs) = length pgs
   \<and> (\<forall>q < length pgs. noContentAfterBreak (handleReverseCompaction ht start pgs ! q)
                          \<or> subseq (handleReverseCompaction ht start pgs ! q) (pgs ! q))"
proof (cases "pgs = []")
  case True
  then show ?thesis by (simp add: handleReverseCompaction_def)
next
  case False
  have "length (reverseFrom ht start pgs) = length pgs
       \<and> (\<forall>q < length pgs. noContentAfterBreak (reverseFrom ht start pgs ! q)
                              \<or> subseq (reverseFrom ht start pgs ! q) (pgs ! q))"
    by (rule reverseFrom_authority) auto
  then show ?thesis using False by (simp add: handleReverseCompaction_def)
qed

lemma scanNextPage_after_break_exact:
  "scanNextPage ht i h True bs = [i ..< i + length (takeWhile pageBreak bs)]"
proof (induction bs arbitrary: i)
  case Nil
  then show ?case by simp
next
  case (Cons b bs)
  show ?case
  proof (cases "pageBreak b")
    case True
    define n where "n = length (takeWhile pageBreak bs)"
    have ih: "scanNextPage ht (i + 1) h True bs = [i + 1 ..< i + 1 + n]"
      unfolding n_def by (rule Cons.IH)
    have up: "[i ..< i + Suc n] = i # [i + 1 ..< i + 1 + n]"
      by (simp add: upt_conv_Cons)
    have "scanNextPage ht i h True (b # bs) = i # scanNextPage ht (i + 1) h True bs"
      using True by simp
    also have "\<dots> = [i ..< i + Suc n]" unfolding ih up ..
    also have "Suc n = length (takeWhile pageBreak (b # bs))"
      using True by (simp add: n_def)
    finally show ?thesis .
  next
    case False
    then show ?thesis by (simp add: Let_def getPageContentMaxHeight_def)
  qed
qed

text \<open>
  Claim C6, as the code has it. (1) A page that holds a page break anywhere is skipped as
  the page that would receive blocks (the page the loop stands at): the step of reverse
  compaction at it changes nothing. (2) In the scan of the next page, once a page break
  has been met, the page breaks that follow it directly are pushed as well and the scan
  ends at the first content block: a later content block counts 1931 and never fits, a
  later page break counts nothing. (3) What a step pulls is a prefix of the next page in
  which no content block comes after a page break. (4) After the whole of
  \<^verbatim>\<open>handleReverseCompaction\<close> every page either has no content block after a page
  break, or has received nothing: it is a subsequence of what it was. So no content block
  has moved back to a place behind a page break.
\<close>

theorem c6_page_break_authority:
  "((pageIndex + 1 < length pgs \<and> (\<exists>b \<in> set (pgs ! pageIndex). pageBreak b))
      \<longrightarrow> compactPage ht pageIndex pgs = pgs)
   \<and> scanNextPage ht i h True bs = [i ..< i + length (takeWhile pageBreak bs)]
   \<and> list_all pageBreak (take (length (scanNextPage ht i h True bs)) bs)
   \<and> (pageIndex + 1 < length pgs \<longrightarrow>
        (\<exists>k \<le> length (pgs ! (pageIndex + 1)).
           compactPage ht pageIndex pgs ! pageIndex
             = pgs ! pageIndex @ filter hasBlockId (take k (pgs ! (pageIndex + 1)))
         \<and> compactPage ht pageIndex pgs ! (pageIndex + 1)
             = filter (\<lambda>b. \<not> hasBlockId b) (take k (pgs ! (pageIndex + 1)))
               @ drop k (pgs ! (pageIndex + 1))
         \<and> noContentAfterBreak (take k (pgs ! (pageIndex + 1)))))
   \<and> length (handleReverseCompaction ht start pgs) = length pgs
   \<and> (\<forall>q < length pgs.
         noContentAfterBreak (handleReverseCompaction ht start pgs ! q)
         \<or> subseq (handleReverseCompaction ht start pgs ! q) (pgs ! q))"
proof -
  have skip: "(pageIndex + 1 < length pgs \<and> (\<exists>b \<in> set (pgs ! pageIndex). pageBreak b))
      \<longrightarrow> compactPage ht pageIndex pgs = pgs"
  proof
    assume a: "pageIndex + 1 < length pgs \<and> (\<exists>b \<in> set (pgs ! pageIndex). pageBreak b)"
    then show "compactPage ht pageIndex pgs = pgs"
      by (auto simp: compactPage_def Let_def)
  qed
  have scan: "list_all pageBreak (take (length (scanNextPage ht i h True bs)) bs)"
    using scanNextPage_after_break[of _ ht i h bs] by (auto simp: list_all_iff)
  have pair: "pageIndex + 1 < length pgs \<longrightarrow>
        (\<exists>k \<le> length (pgs ! (pageIndex + 1)).
           compactPage ht pageIndex pgs ! pageIndex
             = pgs ! pageIndex @ filter hasBlockId (take k (pgs ! (pageIndex + 1)))
         \<and> compactPage ht pageIndex pgs ! (pageIndex + 1)
             = filter (\<lambda>b. \<not> hasBlockId b) (take k (pgs ! (pageIndex + 1)))
               @ drop k (pgs ! (pageIndex + 1))
         \<and> noContentAfterBreak (take k (pgs ! (pageIndex + 1))))"
  proof
    assume lt: "pageIndex + 1 < length pgs"
    let ?nxt = "pgs ! (pageIndex + 1)"
    obtain k where kle: "k \<le> length ?nxt"
      and eq: "compactPage ht pageIndex pgs
               = (pgs[pageIndex + 1 := filter (\<lambda>b. \<not> hasBlockId b) (take k ?nxt) @ drop k ?nxt])
                   [pageIndex := pgs ! pageIndex @ filter hasBlockId (take k ?nxt)]"
      and shape: "noContentAfterBreak (take k ?nxt)"
      using compactPage_char[OF lt, of ht] by blast
    have a: "compactPage ht pageIndex pgs ! pageIndex
             = pgs ! pageIndex @ filter hasBlockId (take k ?nxt)"
      unfolding eq using lt by simp
    have b: "compactPage ht pageIndex pgs ! (pageIndex + 1)
             = filter (\<lambda>b. \<not> hasBlockId b) (take k ?nxt) @ drop k ?nxt"
      unfolding eq using lt by simp
    show "\<exists>k \<le> length ?nxt.
           compactPage ht pageIndex pgs ! pageIndex
             = pgs ! pageIndex @ filter hasBlockId (take k ?nxt)
         \<and> compactPage ht pageIndex pgs ! (pageIndex + 1)
             = filter (\<lambda>b. \<not> hasBlockId b) (take k ?nxt) @ drop k ?nxt
         \<and> noContentAfterBreak (take k ?nxt)"
      using kle a b shape by blast
  qed
  have exact: "scanNextPage ht i h True bs = [i ..< i + length (takeWhile pageBreak bs)]"
    by (rule scanNextPage_after_break_exact)
  show ?thesis
    using skip exact scan pair handleReverseCompaction_authority[of ht start pgs] by blast
qed

theorem c6_page_break_authority_witness:
  "handleReverseCompaction (heightTable [(''a'', 100), (''b'', 100)]) 0
     [[contentBlock ''a''], [pageBreakElement ''p'', contentBlock ''b'']]
     = [[contentBlock ''a'', pageBreakElement ''p''], [contentBlock ''b'']]
   \<and> compactPage (heightTable [(''a'', 100), (''b'', 100)]) 0
       [[contentBlock ''a'', pageBreakElement ''p''], [contentBlock ''b'']]
     = [[contentBlock ''a'', pageBreakElement ''p''], [contentBlock ''b'']]"
proof -
  let ?ht = "heightTable [(''a'', 100), (''b'', 100)]"
  let ?out = "[[contentBlock ''a'', pageBreakElement ''p''], [contentBlock ''b'']]"
  have run: "handleReverseCompaction ?ht 0
     [[contentBlock ''a''], [pageBreakElement ''p'', contentBlock ''b'']] = ?out"
    by (simp add: evalFlow)
  have pre: "0 + 1 < length ?out \<and> (\<exists>b \<in> set (?out ! 0). pageBreak b)"
    by (simp add: pageBreakElement_def)
  from c6_page_break_authority[of 0 ?out ?ht] pre
  have "compactPage ?ht 0 ?out = ?out" by blast
  with run show ?thesis by simp
qed

text \<open>
  Claim C6 as stated fails. The next page holds two page breaks and then a content block.
  The scan meets the first page break and still pushes the second one, a later block of
  that page; both are pulled up, and only the content block stays. The page they are
  pulled from holds a page break and is used as a source all the same.
\<close>

theorem c6_later_sentinel_pulled_counterexample:
  "scanNextPage (heightTable [(''a'', 100), (''c'', 100)]) 0 100 False
     [pageBreakElement ''p'', pageBreakElement ''q'', contentBlock ''c''] = [0, 1]
   \<and> handleReverseCompaction (heightTable [(''a'', 100), (''c'', 100)]) 0
       [[contentBlock ''a''], [pageBreakElement ''p'', pageBreakElement ''q'', contentBlock ''c'']]
     = [[contentBlock ''a'', pageBreakElement ''p'', pageBreakElement ''q''], [contentBlock ''c'']]"
  by (simp add: evalFlow)

subsection \<open>Pruning\<close>

text \<open>
  Claim C7 against the code. \<^verbatim>\<open>removeEmptyPages\<close> keeps a page without content
  while it is the only page left, whichever page that is: of two pages that hold a page
  break each, the last one is removed and the first one stays. And when the document has
  no content left, \<^verbatim>\<open>recreateDocumentFromDOM\<close> yields a page with no block at all; no
  empty paragraph is put in, neither for a page without blocks nor for an empty page list.
\<close>

theorem c7_pruning_on_empty_documents:
  "removeEmptyPages [[pageBreakElement ''p''], [pageBreakElement ''q'']]
     = [[pageBreakElement ''p'']]
   \<and> pagesFromDOM (removeEmptyPages [[]]) = [\<lparr>number = 1, blocks = []\<rparr>]
   \<and> pagesFromDOM [] = [\<lparr>number = 1, blocks = []\<rparr>]"
  by (simp add: removeEmptyPages_def nonPageBreakBlocks_def pageBreakElement_def
      pagesFromDOM_def Let_def)

subsection \<open>Running the pass twice\<close>

lemma handleForwardOverflow_fixpoint:
  assumes "handleForwardOverflow ht pgs = Some fwd"
  shows "handleForwardOverflow ht fwd = Some fwd"
proof (cases "pgs = []")
  case True
  then show ?thesis using assms by (simp add: handleForwardOverflow_def)
next
  case False
  then have "forwardLoop ht pgs = Some fwd"
    using assms by (simp add: handleForwardOverflow_def)
  then have "forwardScan ht 0 fwd = None" by (rule forwardLoop_fixpoint)
  then have "forwardLoop ht fwd = Some fwd" by (subst forwardLoop.simps) simp
  then show ?thesis by (simp add: handleForwardOverflow_def)
qed

lemma calculate_no_break_before_last:
  "\<forall>b \<in> set (butlast p). \<not> pageBreak b \<Longrightarrow>
   calculatePageBlocksHeight ht p = contentHeight ht p"
  by (induction p) auto

lemma forwardScan_nothing_to_split:
  "\<forall>j. i \<le> j \<and> j < length pgs \<longrightarrow> \<not> needsSplit ht (pgs ! j) \<Longrightarrow> forwardScan ht i pgs = None"
proof (induction ht i pgs rule: forwardScan.induct)
  case (1 ht pageIndex pgs)
  show ?case
  proof (cases "pageIndex < length pgs")
    case True
    then have no: "\<not> needsSplit ht (pgs ! pageIndex)" using "1.prems" by simp
    have "forwardScan ht (pageIndex + 1) pgs = None"
      using "1.IH"(3)[OF True no] "1.prems" by simp
    then show ?thesis using True no by (subst forwardScan.simps) simp
  next
    case False
    then show ?thesis by (subst forwardScan.simps) simp
  qed
qed

lemma compactPage_nothing_fits:
  assumes ne: "pgs ! (i + 1) \<noteq> []"
    and no: "(\<exists>b \<in> set (pgs ! i). pageBreak b)
         \<or> (\<not> pageBreak (hd (pgs ! (i + 1)))
            \<and> getPageContentMaxHeight < sum_list (map ht (pgs ! i)) + ht (hd (pgs ! (i + 1))))"
  shows "compactPage ht i pgs = pgs"
proof (cases "\<exists>b \<in> set (pgs ! i). pageBreak b")
  case True
  then show ?thesis by (simp add: compactPage_def Let_def)
next
  case False
  obtain b bs where nxt: "pgs ! (i + 1) = b # bs" using ne by (cases "pgs ! (i + 1)") auto
  from False no nxt have b: "\<not> pageBreak b"
    "getPageContentMaxHeight < sum_list (map ht (pgs ! i)) + ht b" by auto
  then have "scanNextPage ht 0 (sum_list (map ht (pgs ! i))) False (b # bs) = []"
    by (simp add: Let_def)
  then show ?thesis using nxt by (simp add: compactPage_def Let_def)
qed

lemma reverseFrom_nothing_fits:
  "\<forall>i. j \<le> i \<and> i + 1 < length pgs \<longrightarrow> compactPage ht i pgs = pgs \<Longrightarrow> reverseFrom ht j pgs = pgs"
proof (induction "length pgs - j" arbitrary: j)
  case 0
  then show ?case by (subst reverseFrom.simps) simp
next
  case (Suc d)
  show ?case
  proof (cases "j + 1 < length pgs")
    case True
    then have c: "compactPage ht j pgs = pgs" using Suc.prems by simp
    have "reverseFrom ht (j + 1) pgs = pgs"
      using Suc.hyps Suc.prems by (intro Suc.hyps(1)) auto
    then show ?thesis using True c by (subst reverseFrom.simps) simp
  next
    case False
    then show ?thesis by (subst reverseFrom.simps) simp
  qed
qed

lemma removeFrom_nothing_empty:
  "1 < length pgs \<longrightarrow> (\<forall>p \<in> set pgs. nonPageBreakBlocks p \<noteq> []) \<Longrightarrow>
   n \<le> length pgs \<Longrightarrow> removeFrom n pgs = pgs"
proof (induction n)
  case 0
  then show ?case by simp
next
  case (Suc n)
  have "pgs ! n \<in> set pgs" using Suc.prems(2) by simp
  then have "\<not> (length (nonPageBreakBlocks (pgs ! n)) = 0 \<and> length pgs > 1)"
    using Suc.prems(1) by auto
  then have "removeFrom (Suc n) pgs = removeFrom n pgs" by auto
  then show ?case using Suc by simp
qed

lemma length_removeFrom_le: "length (removeFrom m q) \<le> length q"
proof (induction m arbitrary: q)
  case 0
  then show ?case by simp
next
  case (Suc m)
  have "length (removeFrom m (take m q @ drop (Suc m) q)) \<le> length (take m q @ drop (Suc m) q)"
    by (rule Suc.IH)
  moreover have "length (take m q @ drop (Suc m) q) \<le> length q" by simp
  moreover have "length (removeFrom m q) \<le> length q" by (rule Suc.IH)
  ultimately show ?case by (simp del: length_append)
qed

lemma removeFrom_leaves_content:
  "n \<le> length pgs \<Longrightarrow> \<forall>j. n \<le> j \<and> j < length pgs \<longrightarrow> nonPageBreakBlocks (pgs ! j) \<noteq> [] \<Longrightarrow>
   1 < length (removeFrom n pgs) \<longrightarrow> (\<forall>p \<in> set (removeFrom n pgs). nonPageBreakBlocks p \<noteq> [])"
proof (induction n arbitrary: pgs)
  case 0
  then show ?case by (auto simp: in_set_conv_nth)
next
  case (Suc n)
  show ?case
  proof (cases "length (nonPageBreakBlocks (pgs ! n)) = 0 \<and> length pgs > 1")
    case True
    let ?q = "take n pgs @ drop (Suc n) pgs"
    have len: "n \<le> length ?q" using Suc.prems(1) by simp
    have rest: "\<forall>j. n \<le> j \<and> j < length ?q \<longrightarrow> nonPageBreakBlocks (?q ! j) \<noteq> []"
    proof (intro allI impI)
      fix j assume j: "n \<le> j \<and> j < length ?q"
      then have "?q ! j = pgs ! (Suc j)" using Suc.prems(1) by (simp add: nth_append min_def)
      moreover have "Suc j < length pgs" using j Suc.prems(1) by (simp add: min_def) linarith
      ultimately show "nonPageBreakBlocks (?q ! j) \<noteq> []" using Suc.prems(2) j by simp
    qed
    from Suc.IH[OF len rest] show ?thesis using True by simp
  next
    case False
    show ?thesis
    proof (cases "length pgs > 1")
      case True
      with False have c: "nonPageBreakBlocks (pgs ! n) \<noteq> []" by simp
      have len: "n \<le> length pgs" using Suc.prems(1) by simp
      have rest: "\<forall>j. n \<le> j \<and> j < length pgs \<longrightarrow> nonPageBreakBlocks (pgs ! j) \<noteq> []"
        using Suc.prems(2) c by (metis Suc_leI le_neq_implies_less)
      have "removeFrom (Suc n) pgs = removeFrom n pgs" using False by auto
      with Suc.IH[OF len rest] show ?thesis by simp
    next
      case short: False
      have "length (removeFrom n pgs) \<le> length pgs" by (rule length_removeFrom_le)
      moreover have "removeFrom (Suc n) pgs = removeFrom n pgs" using False by auto
      ultimately show ?thesis using short by simp
    qed
  qed
qed

lemma handlePageOverflow_leaves_content:
  assumes "handlePageOverflow ht cur pgs = Some out"
  shows "1 < length out \<longrightarrow> (\<forall>p \<in> set out. nonPageBreakBlocks p \<noteq> [])"
proof (cases "pgs = []")
  case True
  then show ?thesis using assms by (simp add: handlePageOverflow_def)
next
  case False
  then obtain p1 where out: "out = removeEmptyPages (handleReverseCompaction ht cur p1)"
    using assms by (auto simp: handlePageOverflow_def split: option.splits)
  let ?r = "handleReverseCompaction ht cur p1"
  have "1 < length (removeFrom (length ?r) ?r)
        \<longrightarrow> (\<forall>p \<in> set (removeFrom (length ?r) ?r). nonPageBreakBlocks p \<noteq> [])"
    by (rule removeFrom_leaves_content) auto
  then show ?thesis unfolding out removeEmptyPages_def by auto
qed

text \<open>
  Claim C8, as the code has it. A pass has returned a tree in which (a) no page with more
  than one content block has a page break before its last element, and (b) from the page
  of the edit on, every page that has a next page either holds a page break or cannot
  take the first block of the next page, a content block that does not fit. Then a second
  pass with the same page of the edit returns the identical tree, and none of its phases
  does anything: forward overflow moves no block and creates no page, reverse compaction
  pulls no block, pruning removes no page.
\<close>

theorem c8_second_pass_on_settled_tree:
  assumes pass: "handlePageOverflow ht currentPageIndex pgs = Some out"
    and breaks: "\<forall>p \<in> set out. 1 < length (nonPageBreakBlocks p)
                   \<longrightarrow> (\<forall>b \<in> set (butlast p). \<not> pageBreak b)"
    and full: "\<forall>i. currentPageIndex \<le> i \<and> i + 1 < length out \<longrightarrow>
                 (\<exists>b \<in> set (out ! i). pageBreak b)
                 \<or> (\<not> pageBreak (hd (out ! (i + 1)))
                    \<and> getPageContentMaxHeight
                        < sum_list (map ht (out ! i)) + ht (hd (out ! (i + 1))))"
  shows "handlePageOverflow ht currentPageIndex out = Some out
       \<and> handleForwardOverflow ht out = Some out
       \<and> handleReverseCompaction ht currentPageIndex out = out
       \<and> removeEmptyPages out = out"
proof -
  have content: "1 < length out \<longrightarrow> (\<forall>p \<in> set out. nonPageBreakBlocks p \<noteq> [])"
    by (rule handlePageOverflow_leaves_content[OF pass])
  have nosplit: "\<not> needsSplit ht p" if p: "p \<in> set out" for p
  proof (cases "1 < length (nonPageBreakBlocks p)")
    case True
    then have "calculatePageBlocksHeight ht p = contentHeight ht p"
      using breaks p by (intro calculate_no_break_before_last) blast
    moreover have "contentHeight ht p \<le> getPageContentMaxHeight"
      using handlePageOverflow_budgetOrSingle[OF pass] p True by (simp add: budgetOrSingle_def)
    ultimately show ?thesis by (simp add: needsSplit_def)
  next
    case False
    then show ?thesis by (simp add: needsSplit_def)
  qed
  have "forwardScan ht 0 out = None"
    by (rule forwardScan_nothing_to_split) (simp add: nosplit)
  then have "forwardLoop ht out = Some out" by (subst forwardLoop.simps) simp
  then have fwd: "handleForwardOverflow ht out = Some out"
    by (simp add: handleForwardOverflow_def)
  have step: "compactPage ht i out = out" if i: "currentPageIndex \<le> i \<and> i + 1 < length out" for i
  proof (rule compactPage_nothing_fits)
    have "out ! (i + 1) \<in> set out" using i by simp
    moreover have "1 < length out" using i by simp
    ultimately have "nonPageBreakBlocks (out ! (i + 1)) \<noteq> []" using content by blast
    then show "out ! (i + 1) \<noteq> []" by auto
    show "(\<exists>b \<in> set (out ! i). pageBreak b)
         \<or> (\<not> pageBreak (hd (out ! (i + 1)))
            \<and> getPageContentMaxHeight < sum_list (map ht (out ! i)) + ht (hd (out ! (i + 1))))"
      using full i by blast
  qed
  have "reverseFrom ht currentPageIndex out = out"
    by (rule reverseFrom_nothing_fits) (simp add: step)
  then have rev: "handleReverseCompaction ht currentPageIndex out = out"
    by (simp add: handleReverseCompaction_def)
  have "out \<noteq> [] \<Longrightarrow> removeFrom (length out) out = out"
    by (rule removeFrom_nothing_empty[OF content]) simp
  then have prune: "removeEmptyPages out = out" by (simp add: removeEmptyPages_def)
  have "handlePageOverflow ht currentPageIndex out = Some out"
    using fwd rev prune by (simp add: handlePageOverflow_def)
  then show ?thesis using fwd rev prune by simp
qed

theorem c8_second_pass_on_settled_tree_witness:
  "handlePageOverflow (heightTable [(''a'', 500), (''b'', 400), (''c'', 500)]) 0
     [[contentBlock ''a''], [contentBlock ''b'', contentBlock ''c'']]
     = Some [[contentBlock ''a'', contentBlock ''b''], [contentBlock ''c'']]
   \<and> handlePageOverflow (heightTable [(''a'', 500), (''b'', 400), (''c'', 500)]) 0
       [[contentBlock ''a'', contentBlock ''b''], [contentBlock ''c'']]
     = Some [[contentBlock ''a'', contentBlock ''b''], [contentBlock ''c'']]"
proof -
  let ?ht = "heightTable [(''a'', 500), (''b'', 400), (''c'', 500)]"
  let ?out = "[[contentBlock ''a'', contentBlock ''b''], [contentBlock ''c'']]"
  have h1: "handlePageOverflow ?ht 0
              [[contentBlock ''a''], [contentBlock ''b'', contentBlock ''c'']] = Some ?out"
    by (simp add: evalFlow)
  have h2: "\<forall>p \<in> set ?out. 1 < length (nonPageBreakBlocks p)
                   \<longrightarrow> (\<forall>b \<in> set (butlast p). \<not> pageBreak b)"
    by (simp add: contentBlock_def)
  have h3: "\<forall>i. 0 \<le> i \<and> i + 1 < length ?out \<longrightarrow>
                 (\<exists>b \<in> set (?out ! i). pageBreak b)
                 \<or> (\<not> pageBreak (hd (?out ! (i + 1)))
                    \<and> getPageContentMaxHeight
                        < sum_list (map ?ht (?out ! i)) + ?ht (hd (?out ! (i + 1))))"
    by (simp add: contentBlock_def heightTable_def getPageContentMaxHeight_def)
  from c8_second_pass_on_settled_tree[OF h1 h2 h3] h1 show ?thesis by simp
qed

text \<open>
  Claim C8 as stated fails, in both phases. Three pages hold one block of height 100
  each: the first pass pulls the second block up to the first page and the third block up
  to the emptied second page, and the second pass pulls that block up again. And the two
  phases undo each other: reverse compaction of the first pass pulls two page breaks up
  behind two content blocks, and forward overflow of the second pass pushes the second of
  them down again.
\<close>

theorem c8_idempotence_counterexample:
  "handlePageOverflow (heightTable [(''a'', 100), (''b'', 100), (''c'', 100)]) 0
     [[contentBlock ''a''], [contentBlock ''b''], [contentBlock ''c'']]
     = Some [[contentBlock ''a'', contentBlock ''b''], [contentBlock ''c'']]
   \<and> handlePageOverflow (heightTable [(''a'', 100), (''b'', 100), (''c'', 100)]) 0
       [[contentBlock ''a'', contentBlock ''b''], [contentBlock ''c'']]
     = Some [[contentBlock ''a'', contentBlock ''b'', contentBlock ''c'']]
   \<and> [[contentBlock ''a'', contentBlock ''b''], [contentBlock ''c'']]
       \<noteq> [[contentBlock ''a'', contentBlock ''b'', contentBlock ''c'']]
   \<and> handlePageOverflow (heightTable [(''a'', 100), (''b'', 100), (''c'', 100)]) 0
       [[contentBlock ''a'', contentBlock ''b''],
        [pageBreakElement ''p'', pageBreakElement ''q'', contentBlock ''c'']]
     = Some [[contentBlock ''a'', contentBlock ''b'', pageBreakElement ''p'', pageBreakElement ''q''],
             [contentBlock ''c'']]
   \<and> handlePageOverflow (heightTable [(''a'', 100), (''b'', 100), (''c'', 100)]) 0
       [[contentBlock ''a'', contentBlock ''b'', pageBreakElement ''p'', pageBreakElement ''q''],
        [contentBlock ''c'']]
     = Some [[contentBlock ''a'', contentBlock ''b'', pageBreakElement ''p''],
             [pageBreakElement ''q'', contentBlock ''c'']]
   \<and> [[contentBlock ''a'', contentBlock ''b'', pageBreakElement ''p'', pageBreakElement ''q''],
        [contentBlock ''c'']]
       \<noteq> [[contentBlock ''a'', contentBlock ''b'', pageBreakElement ''p''],
           [pageBreakElement ''q'', contentBlock ''c'']]"
  by (simp add: evalFlow)

section \<open>Properties of saving\<close>

text \<open>
  Claim C9, as the code has it. \<^verbatim>\<open>saveDocument\<close> writes the current time into the
  \<^verbatim>\<open>updatedAt\<close> field of the caller's object and changes no other field of it, and
  no other object of the caller; the stored record is the object as updated.
\<close>

theorem c9_save_changes_only_updatedAt:
  assumes "heap w doc = Some d"
  shows "\<exists>d'. heap (saveDocument now doc w) doc = Some d'
           \<and> doc_id d' = doc_id d \<and> title d' = title d \<and> pages d' = pages d
           \<and> createdAt d' = createdAt d \<and> updatedAt d' = now
           \<and> documents (saveDocument now doc w) (doc_id d) = Some d'
           \<and> (\<forall>r. r \<noteq> doc \<longrightarrow> heap (saveDocument now doc w) r = heap w r)"
  using assms by (simp add: saveDocument_def Let_def)

theorem c9_save_changes_only_updatedAt_witness:
  "heap (saveDocument 5 0
      \<lparr>heap = [0 \<mapsto> \<lparr>doc_id = ''d'', title = ''t'', pages = [], createdAt = 1, updatedAt = 1\<rparr>],
       documents = Map.empty\<rparr>) 0
     = Some \<lparr>doc_id = ''d'', title = ''t'', pages = [], createdAt = 1, updatedAt = 5\<rparr>"
proof -
  let ?d = "\<lparr>doc_id = ''d'', title = ''t'', pages = [], createdAt = 1, updatedAt = 1\<rparr>"
  let ?w = "\<lparr>heap = [0 \<mapsto> ?d], documents = Map.empty\<rparr>"
  have h: "heap ?w 0 = Some ?d" by simp
  from c9_save_changes_only_updatedAt[OF h, of 5] obtain d' where
    d': "heap (saveDocument 5 0 ?w) 0 = Some d'"
      "doc_id d' = doc_id ?d" "title d' = title ?d" "pages d' = pages ?d"
      "createdAt d' = createdAt ?d" "updatedAt d' = 5"
    by blast
  then have "d' = \<lparr>doc_id = ''d'', title = ''t'', pages = [], createdAt = 1, updatedAt = 5\<rparr>"
    by (cases d') simp
  with d'(1) show ?thesis by simp
qed

text \<open>
  Claim C9 as stated fails: the document object the caller passed has a different
  \<^verbatim>\<open>updatedAt\<close> after the call.
\<close>

theorem c9_save_mutates_counterexample:
  "heap (saveDocument 5 0
      \<lparr>heap = [0 \<mapsto> \<lparr>doc_id = ''d'', title = ''t'', pages = [], createdAt = 1, updatedAt = 1\<rparr>],
       documents = Map.empty\<rparr>) 0
     \<noteq> heap \<lparr>heap = [0 \<mapsto> \<lparr>doc_id = ''d'', title = ''t'', pages = [], createdAt = 1, updatedAt = 1\<rparr>],
             documents = Map.empty\<rparr> 0"
  by (simp add: saveDocument_def Let_def)

section \<open>Properties of the page-break insertion\<close>




section \<open>Properties of inline formatting\<close>

lemmas evalFormat =
  applyFormat_def validRange_def collapsed_def getActiveFormats_def allFormats_def
  breakSelectionIntoCharacterNodes_def breakText_def charNode_def sortFormats_def
  formatRank_def updatedFormats_def runList_def canonicalRuns_def Let_def

text \<open>
  On a block of plain text the two steps undo each other as far as the serialised content
  goes: bold on the characters 2 to 4 of \<^verbatim>\<open>abcdefgh\<close>, then bold again on the same
  characters, leaves five text nodes that serialise to the text the block had.
\<close>

lemma plain_text_round_trip_example:
  "applyFormat Bold \<lparr>startContainer = 1, startOffset = 0, endContainer = 3, endOffset = 1\<rparr>
     (applyFormat Bold \<lparr>startContainer = 0, startOffset = 2, endContainer = 0, endOffset = 5\<rparr>
        [Text ''abcdefgh''])
     = [Text ''ab'', Text ''c'', Text ''d'', Text ''e'', Text ''fgh'']
   \<and> innerHTML [Text ''ab'', Text ''c'', Text ''d'', Text ''e'', Text ''fgh'']
     = innerHTML [Text ''abcdefgh'']"
  by (simp add: evalFormat escapeChar_def)

text \<open>
  Claim C4 against the code. The block is \<^verbatim>\<open>abcdefgh\<close> in one italic span. Bold on the
  characters 2 to 4 (a selection inside the one text node) puts each of \<^verbatim>\<open>c\<close>,
  \<^verbatim>\<open>d\<close>, \<^verbatim>\<open>e\<close> into a span of its own, bold and italic, inside the italic span. Bold
  again on the same characters (the selection now runs from the start of the text node
  \<^verbatim>\<open>c\<close> to the end of the text node \<^verbatim>\<open>e\<close>) finds them all bold and removes it, and
  the three inner spans stay, as italic spans inside the italic span. Nothing merges them
  back: the serialised content is not the one the block had.
\<close>

theorem c4_round_trip_fails:
  "applyFormat Bold \<lparr>startContainer = 0, startOffset = 2, endContainer = 0, endOffset = 5\<rparr>
     [Span [Italic] [Text ''abcdefgh'']]
     = [Span [Italic] [Text ''ab'', Span [Bold, Italic] [Text ''c''],
          Span [Bold, Italic] [Text ''d''], Span [Bold, Italic] [Text ''e''], Text ''fgh'']]
   \<and> applyFormat Bold \<lparr>startContainer = 1, startOffset = 0, endContainer = 3, endOffset = 1\<rparr>
       [Span [Italic] [Text ''ab'', Span [Bold, Italic] [Text ''c''],
          Span [Bold, Italic] [Text ''d''], Span [Bold, Italic] [Text ''e''], Text ''fgh'']]
     = [Span [Italic] [Text ''ab'', Span [Italic] [Text ''c''],
          Span [Italic] [Text ''d''], Span [Italic] [Text ''e''], Text ''fgh'']]
   \<and> innerHTML [Span [Italic] [Text ''ab'', Span [Italic] [Text ''c''],
          Span [Italic] [Text ''d''], Span [Italic] [Text ''e''], Text ''fgh'']]
     \<noteq> innerHTML [Span [Italic] [Text ''abcdefgh'']]"
  by (simp add: evalFormat escapeChar_def formatName_def)

text \<open>
  Claim C5 against the code. Bold on the characters 2 to 4 of the plain text
  \<^verbatim>\<open>abcdefgh\<close> leaves three bold spans of one character each, side by side: three
  adjacent runs with the same format set. The run list is not canonical.
\<close>

theorem c5_adjacent_runs_share_formats:
  "applyFormat Bold \<lparr>startContainer = 0, startOffset = 2, endContainer = 0, endOffset = 5\<rparr>
     [Text ''abcdefgh'']
     = [Text ''ab'', Span [Bold] [Text ''c''], Span [Bold] [Text ''d''], Span [Bold] [Text ''e''],
        Text ''fgh'']
   \<and> runList [Text ''ab'', Span [Bold] [Text ''c''], Span [Bold] [Text ''d''],
               Span [Bold] [Text ''e''], Text ''fgh'']
     = [(''ab'', []), (''c'', [Bold]), (''d'', [Bold]), (''e'', [Bold]), (''fgh'', [])]
   \<and> \<not> canonicalRuns (runList (applyFormat Bold
          \<lparr>startContainer = 0, startOffset = 2, endContainer = 0, endOffset = 5\<rparr>
          [Text ''abcdefgh'']))"
  by (simp add: evalFormat)

end
